theory Spec2Isabelle
  imports Main "HOL-Library.AList"
begin

section \<open>Strings: whitespace splitting and punctuation\<close>

text \<open>
  Python strings are modelled as \<^typ>\<open>string\<close>, one \<^typ>\<open>char\<close> per code point; only the
  code points below 256 are representable. \<open>str.split()\<close> without arguments splits at
  runs of characters for which \<open>str.isspace\<close> holds and drops the empty pieces. Below 256
  these are tab, line feed, vertical tab, form feed, carriage return, the four separators
  0x1C..0x1F, the blank, NEL (0x85) and the no-break space (0xA0).
\<close>

definition isspace :: "char \<Rightarrow> bool" where
  "isspace c \<longleftrightarrow> (of_char c :: nat) \<in> {9, 10, 11, 12, 13, 28, 29, 30, 31, 32, 133, 160}"

text \<open>\<open>split_from w s\<close>: the scan of \<open>str.split()\<close>, \<open>w\<close> being the word read so far.\<close>

fun split_from :: "string \<Rightarrow> string \<Rightarrow> string list" where
  "split_from w [] = (if w = [] then [] else [w])"
| "split_from w (c # cs) =
     (if isspace c then (if w = [] then split_from [] cs else w # split_from [] cs)
      else split_from (w @ [c]) cs)"

definition str_split :: "string \<Rightarrow> string list" where
  "str_split s = split_from [] s"

text \<open>
  \<open>string.punctuation\<close>, in Python's order:
  \<^verbatim>\<open>!"#$%&'()*+,-./:;<=>?@[\]^_`{|}~\<close>
\<close>

definition punctuation :: string where
  "punctuation =
     [CHR ''!'', CHR 0x22, CHR ''#'', CHR ''$'', CHR ''%'', CHR ''&'', CHR 0x27, CHR ''('',
      CHR '')'', CHR ''*'', CHR ''+'', CHR '','', CHR ''-'', CHR ''.'', CHR ''/'', CHR '':'',
      CHR '';'', CHR ''<'', CHR ''='', CHR ''>'', CHR ''?'', CHR ''@'', CHR ''['', CHR 0x5C,
      CHR '']'', CHR ''^'', CHR ''_'', CHR 0x60, CHR ''{'', CHR ''|'', CHR ''}'', CHR ''~'']"

text \<open>
  \<open>text.replace(symbol, new)\<close> for a one-character \<open>symbol\<close>: every occurrence of the
  character is replaced, left to right, and the inserted text is not scanned again.
\<close>

fun replace :: "string \<Rightarrow> char \<Rightarrow> string \<Rightarrow> string" where
  "replace [] symbol new = []"
| "replace (c # cs) symbol new =
     (if c = symbol then new @ replace cs symbol new else c # replace cs symbol new)"

text \<open>
  \<^verbatim>\<open>
  def punctuation_spliter(text):
      for symbol in string.punctuation:
          text = text.replace(symbol, ' '+ symbol+ ' ')
      return text
  \<close>
\<close>

definition punctuation_spliter :: "string \<Rightarrow> string" where
  "punctuation_spliter text =
     fold (\<lambda>symbol text. replace text symbol ([CHR '' ''] @ [symbol] @ [CHR '' ''])) punctuation text"

section \<open>The log table and the labeler\<close>

text \<open>
  Exceptions are values: \<open>sublist[0]\<close> on an empty list and an index past the end of a
  list raise \<open>IndexError\<close>, a missing dictionary key or column raises \<open>KeyError\<close>, a row
  label that the table does not have raises a \<open>LookupError\<close>.
\<close>

datatype py_error = IndexError | KeyError | LookupError

text \<open>
  \<open>logs_df\<close>: the table, column name to column; every cell is held as the string that
  \<open>str(logs_df[col][index_no])\<close> yields for it. \<open>raw_preprocess\<close> is one of the columns.
\<close>

type_synonym dataframe = "(string \<times> string list) list"

definition df_get :: "dataframe \<Rightarrow> string \<Rightarrow> nat \<Rightarrow> py_error + string" where
  "df_get logs_df col index_no =
     (case map_of logs_df col of
        None \<Rightarrow> Inl KeyError
      | Some column \<Rightarrow> if index_no < length column then Inr (column ! index_no) else Inl LookupError)"

text \<open>\<open>xs[a:b]\<close> and \<open>xs[a:b] = new\<close> for indices \<open>0 \<le> a\<close>, \<open>0 \<le> b\<close> (both clamp to the length).\<close>

definition py_slice :: "'a list \<Rightarrow> nat \<Rightarrow> nat \<Rightarrow> 'a list" where
  "py_slice xs a b = take (b - a) (drop a xs)"

definition slice_assign :: "'a list \<Rightarrow> nat \<Rightarrow> nat \<Rightarrow> 'a list \<Rightarrow> 'a list" where
  "slice_assign xs a b new = take a xs @ new @ drop (max a b) xs"

definition skip_values :: "string set" where
  "skip_values = {[], ''-'', ''None'', ''NaN''}"

text \<open>
  The inner loop of \<open>labeler\<close> for one column,
  \<^verbatim>\<open>
  for ind in (i for i,el in enumerate(raw_split) if el==sublist[0]):
      if (match_count < 1) and (raw_split[ind:ind+sublist_len]==sublist)
            and (label_list[ind:ind+sublist_len] == ['O'] * sublist_len):
          label_list[ind] = 'B-'+col
          label_list[ind+1:ind+sublist_len] = ['I-'+col] * (sublist_len - 1)
          match_count = 1
  \<close>
  run over the pairs of \<open>enumerate(raw_split)\<close> still to come. The generator evaluates
  \<open>sublist[0]\<close> once for every pair, so an empty \<open>sublist\<close> raises at the first pair.
\<close>

fun match_loop ::
  "string list \<Rightarrow> string list \<Rightarrow> string \<Rightarrow> (nat \<times> string) list \<Rightarrow> nat \<Rightarrow> string list
     \<Rightarrow> py_error + string list" where
  "match_loop raw_split sublist col [] match_count label_list = Inr label_list"
| "match_loop raw_split sublist col ((ind, el) # rest) match_count label_list =
     (case sublist of
        [] \<Rightarrow> Inl IndexError
      | s0 # _ \<Rightarrow>
          if el = s0 then
            (if match_count < 1
                \<and> py_slice raw_split ind (ind + length sublist) = sublist
                \<and> py_slice label_list ind (ind + length sublist) = replicate (length sublist) ''O''
             then
               (if ind < length label_list then
                  match_loop raw_split sublist col rest 1
                    (slice_assign (label_list[ind := ''B-'' @ col]) (ind + 1) (ind + length sublist)
                       (replicate (length sublist - 1) (''I-'' @ col)))
                else Inl IndexError)
             else match_loop raw_split sublist col rest match_count label_list)
          else match_loop raw_split sublist col rest match_count label_list)"

text \<open>The loop \<open>for col in cols\<close>, from a given label list.\<close>

fun label_cols ::
  "dataframe \<Rightarrow> nat \<Rightarrow> string list \<Rightarrow> string list \<Rightarrow> string list \<Rightarrow> py_error + string list" where
  "label_cols logs_df index_no raw_split [] label_list = Inr label_list"
| "label_cols logs_df index_no raw_split (col # cols) label_list =
     (case df_get logs_df col index_no of
        Inl e \<Rightarrow> Inl e
      | Inr col_value \<Rightarrow>
          if col_value \<notin> skip_values then
            (case match_loop raw_split (str_split (punctuation_spliter col_value)) col
                    (enumerate 0 raw_split) 0 label_list of
               Inl e \<Rightarrow> Inl e
             | Inr label_list' \<Rightarrow> label_cols logs_df index_no raw_split cols label_list')
          else label_cols logs_df index_no raw_split cols label_list)"

definition labeler :: "dataframe \<Rightarrow> nat \<Rightarrow> string list \<Rightarrow> py_error + string list" where
  "labeler logs_df index_no cols =
     (case df_get logs_df ''raw_preprocess'' index_no of
        Inl e \<Rightarrow> Inl e
      | Inr raw \<Rightarrow>
          label_cols logs_df index_no (str_split raw) cols
            (replicate (length (str_split raw)) ''O''))"

section \<open>Subword labels\<close>

text \<open>
  The tokenizer is a parameter: \<open>tokenizer words\<close> is the column \<open>['metadata'][:,2]\<close> of
  its answer for \<open>words\<close>, one integer for each row it reports.
  \<open>temp_tags.extend('X' * n)\<close> appends \<open>n\<close> labels \<open>'X'\<close>, none when \<open>n \<le> 0\<close>.
\<close>

fun tag_loop :: "int list \<Rightarrow> (nat \<times> string) list \<Rightarrow> string list \<Rightarrow> py_error + string list" where
  "tag_loop subword_counts [] temp_tags = Inr temp_tags"
| "tag_loop subword_counts ((i, tag) # rest) temp_tags =
     (if i < length subword_counts then
        tag_loop subword_counts rest
          (temp_tags @ [tag] @ replicate (nat (subword_counts ! i)) ''X'')
      else Inl IndexError)"

fun log_loop ::
  "(string list \<Rightarrow> int list) \<Rightarrow> (string \<times> string list) list \<Rightarrow> string list list
     \<Rightarrow> py_error + string list list" where
  "log_loop tokenizer [] subword_labels = Inr subword_labels"
| "log_loop tokenizer ((log, tags) # rest) subword_labels =
     (case tag_loop (tokenizer (str_split log)) (enumerate 0 tags) [] of
        Inl e \<Rightarrow> Inl e
      | Inr temp_tags \<Rightarrow> log_loop tokenizer rest (subword_labels @ [temp_tags]))"

definition subword_labeler ::
  "(string list \<Rightarrow> int list) \<Rightarrow> string list \<Rightarrow> string list list \<Rightarrow> py_error + string list list" where
  "subword_labeler tokenizer log_list label_list = log_loop tokenizer (zip log_list label_list) []"

section \<open>The label dictionary, padding\<close>

text \<open>
  A dictionary is an association list in insertion order; \<^const>\<open>AList.update\<close> overwrites the
  value of a key that is present and appends a new key, as \<open>d[k] = v\<close> does.
  \<open>label_values\<close> is the list that \<open>list(set(x for l in labels for x in l))\<close> yields; its
  order is not fixed by the language.
  \<^verbatim>\<open>
  label_values[:0] = ['[PAD]']
  label2id = {t: i for i, t in enumerate(label_values)}
  label2id.update({'X': -100})
  id2label={label2id[key] : key for key in label2id.keys()}
  \<close>
\<close>

definition label2id :: "string list \<Rightarrow> (string \<times> int) list" where
  "label2id label_values =
     AList.update ''X'' (- 100)
       (fold (\<lambda>(i, t) d. AList.update t (int i) d) (enumerate 0 (''[PAD]'' # label_values)) [])"

definition id2label :: "(string \<times> int) list \<Rightarrow> (int \<times> string) list" where
  "id2label l2i = fold (\<lambda>(key, v) d. AList.update v key d) l2i []"

text \<open>
  \<^verbatim>\<open>
  def pad(l, content, width):
      l.extend([content] * (width - len(l)))
      return l
  padded_labels = [pad(x[:512], '[PAD]', 512) for x in subword_labels]
  int_labels = [[label2id.get(l) for l in lab] for lab in padded_labels]
  \<close>
  \<open>[content] * n\<close> is empty for \<open>n \<le> 0\<close>; \<open>label2id.get(l)\<close> is \<open>None\<close> for a missing key.
\<close>

definition pad :: "'a list \<Rightarrow> 'a \<Rightarrow> int \<Rightarrow> 'a list" where
  "pad l content width = l @ replicate (nat (width - int (length l))) content"

definition padded_labels :: "string list list \<Rightarrow> string list list" where
  "padded_labels subword_labels = map (\<lambda>x. pad (take 512 x) ''[PAD]'' 512) subword_labels"

definition int_labels :: "(string \<times> int) list \<Rightarrow> string list list \<Rightarrow> int option list list" where
  "int_labels l2i padded = map (\<lambda>lab. map (\<lambda>l. map_of l2i l) lab) padded"

section \<open>The evaluation loop\<close>

text \<open>
  A batch of the validation loader: the attention masks, the label ids and the ids the
  model predicts (\<open>logits\<close> after \<open>argmax\<close>), one row for each example. The model is not
  part of the embedding; its predictions are input.
\<close>

record batch =
  input_mask :: "int list list"
  label_ids :: "int list list"
  logits :: "int list list"

text \<open>
  \<^verbatim>\<open>
  for j, m in enumerate(mask):
      if m:
          if id2label[label_ids[i][j]] != "X" and id2label[label_ids[i][j]] != "[PAD]":
              temp_1.append(id2label[label_ids[i][j]])
              temp_2.append(id2label[logits[i][j]])
      else:
          break
  \<close>
\<close>

fun compare_loop ::
  "(int \<times> string) list \<Rightarrow> int list list \<Rightarrow> int list list \<Rightarrow> nat \<Rightarrow> (nat \<times> int) list
     \<Rightarrow> string list \<times> string list \<Rightarrow> py_error + (string list \<times> string list)" where
  "compare_loop i2l labs preds i [] (temp_1, temp_2) = Inr (temp_1, temp_2)"
| "compare_loop i2l labs preds i ((j, m) # rest) (temp_1, temp_2) =
     (if m \<noteq> 0 then
        (if i < length labs \<and> j < length (labs ! i) then
           (case map_of i2l (labs ! i ! j) of
              None \<Rightarrow> Inl KeyError
            | Some a \<Rightarrow>
                if a \<noteq> ''X'' \<and> a \<noteq> ''[PAD]'' then
                  (if i < length preds \<and> j < length (preds ! i) then
                     (case map_of i2l (preds ! i ! j) of
                        None \<Rightarrow> Inl KeyError
                      | Some b \<Rightarrow> compare_loop i2l labs preds i rest (temp_1 @ [a], temp_2 @ [b]))
                   else Inl IndexError)
                else compare_loop i2l labs preds i rest (temp_1, temp_2))
         else Inl IndexError)
      else Inr (temp_1, temp_2))"

text \<open>\<open>for i,mask in enumerate(input_mask)\<close>, appending to \<open>y_true\<close> and \<open>y_pred\<close>.\<close>

fun row_loop ::
  "(int \<times> string) list \<Rightarrow> int list list \<Rightarrow> int list list \<Rightarrow> (nat \<times> int list) list
     \<Rightarrow> string list list \<times> string list list \<Rightarrow> py_error + (string list list \<times> string list list)" where
  "row_loop i2l labs preds [] (y_true, y_pred) = Inr (y_true, y_pred)"
| "row_loop i2l labs preds ((i, mask_row) # rest) (y_true, y_pred) =
     (case compare_loop i2l labs preds i (enumerate 0 mask_row) ([], []) of
        Inl e \<Rightarrow> Inl e
      | Inr (temp_1, temp_2) \<Rightarrow> row_loop i2l labs preds rest (y_true @ [temp_1], y_pred @ [temp_2]))"

text \<open>\<open>for step, batch in enumerate(val_dataloader)\<close>.\<close>

fun batch_loop ::
  "(int \<times> string) list \<Rightarrow> batch list \<Rightarrow> string list list \<times> string list list
     \<Rightarrow> py_error + (string list list \<times> string list list)" where
  "batch_loop i2l [] acc = Inr acc"
| "batch_loop i2l (b # bs) acc =
     (case row_loop i2l (label_ids b) (logits b) (enumerate 0 (input_mask b)) acc of
        Inl e \<Rightarrow> Inl e
      | Inr acc' \<Rightarrow> batch_loop i2l bs acc')"

definition evaluation ::
  "(int \<times> string) list \<Rightarrow> batch list \<Rightarrow> py_error + (string list list \<times> string list list)" where
  "evaluation i2l batches = batch_loop i2l batches ([], [])"

section \<open>Notions used to state the properties\<close>

text \<open>
  The definitions of this section are not code of the notebook; the properties below are
  stated with them and each is related to the code by a lemma.

  \<open>spaced S s\<close>: \<open>s\<close> with a blank put on both sides of every character of \<open>S\<close>, in one
  pass.
\<close>

definition spaced :: "char set \<Rightarrow> string \<Rightarrow> string" where
  "spaced S text = concat (map (\<lambda>c. if c \<in> S then [CHR '' '', c, CHR '' ''] else [c]) text)"

text \<open>
  \<open>free_at raw_split sublist label_list ind\<close>: the words of \<open>sublist\<close> stand in \<open>raw_split\<close>
  from position \<open>ind\<close> on and all their positions are still labelled \<open>'O'\<close>; this is the
  test of the \<open>if\<close> in the inner loop of \<open>labeler\<close>, \<open>match_count\<close> apart.
  \<open>first_free\<close> is the earliest such position.
\<close>

definition free_at :: "string list \<Rightarrow> string list \<Rightarrow> string list \<Rightarrow> nat \<Rightarrow> bool" where
  "free_at raw_split sublist label_list ind \<longleftrightarrow>
     py_slice raw_split ind (ind + length sublist) = sublist \<and>
     py_slice label_list ind (ind + length sublist) = replicate (length sublist) ''O''"

definition first_free :: "string list \<Rightarrow> string list \<Rightarrow> string list \<Rightarrow> nat option" where
  "first_free raw_split sublist label_list =
     find (free_at raw_split sublist label_list) [0..<length raw_split]"

text \<open>\<open>write_span\<close>: the two assignments of the inner loop, for a value of \<open>n\<close> words.\<close>

definition write_span :: "string list \<Rightarrow> nat \<Rightarrow> string \<Rightarrow> nat \<Rightarrow> string list" where
  "write_span label_list ind col n =
     slice_assign (label_list[ind := ''B-'' @ col]) (ind + 1) (ind + n) (replicate (n - 1) (''I-'' @ col))"

text \<open>What one column with the words \<open>sublist\<close> does to the label list.\<close>

definition label_col :: "string list \<Rightarrow> string list \<Rightarrow> string \<Rightarrow> string list \<Rightarrow> string list" where
  "label_col raw_split sublist col label_list =
     (case first_free raw_split sublist label_list of
        None \<Rightarrow> label_list
      | Some ind \<Rightarrow> write_span label_list ind col (length sublist))"

text \<open>
  The words of a column's value in a row; empty when the cell cannot be read or holds one
  of the values that \<open>labeler\<close> skips.
\<close>

definition col_sublist :: "dataframe \<Rightarrow> nat \<Rightarrow> string \<Rightarrow> string list" where
  "col_sublist logs_df index_no col =
     (case df_get logs_df col index_no of
        Inl e \<Rightarrow> []
      | Inr col_value \<Rightarrow> if col_value \<in> skip_values then [] else str_split (punctuation_spliter col_value))"

text \<open>
  \<open>span_at raw_split sublist col label_list ind\<close>: from \<open>ind\<close> on, the log has the words of
  \<open>sublist\<close> and the labels are \<open>'B-'+col\<close> followed by \<open>'I-'+col\<close> for the other words.
\<close>

definition span_at :: "string list \<Rightarrow> string list \<Rightarrow> string \<Rightarrow> string list \<Rightarrow> nat \<Rightarrow> bool" where
  "span_at raw_split sublist col label_list ind \<longleftrightarrow>
     sublist \<noteq> [] \<and>
     py_slice raw_split ind (ind + length sublist) = sublist \<and>
     py_slice label_list ind (ind + length sublist) =
       (''B-'' @ col) # replicate (length sublist - 1) (''I-'' @ col)"

text \<open>Every tag followed by as many \<open>'X'\<close> as the count reported for its word.\<close>

definition with_subwords :: "string list \<Rightarrow> int list \<Rightarrow> string list" where
  "with_subwords tags subword_counts =
     concat (map (\<lambda>(tag, c). tag # replicate (nat c) ''X'') (zip tags subword_counts))"

text \<open>
  The validation examples in the order of the loop: the mask, the label ids and the
  predicted ids of each row of each batch. \<open>compared\<close> lists the positions of an example
  that the loop compares: those before the first zero of the mask whose true label is
  neither \<open>'X'\<close> nor \<open>'[PAD]'\<close>. \<open>row_result\<close> is what the loop appends for an example, and
  \<open>readable\<close> says that the loop finds every id it looks up in a batch.
\<close>

definition examples :: "batch list \<Rightarrow> (int list \<times> int list \<times> int list) list" where
  "examples batches =
     concat (map (\<lambda>b. map (\<lambda>(i, mask_row). (mask_row, label_ids b ! i, logits b ! i))
                          (enumerate 0 (input_mask b))) batches)"

definition compared :: "(int \<times> string) list \<Rightarrow> int list \<Rightarrow> int list \<Rightarrow> nat list" where
  "compared i2l mask_row label_row =
     filter (\<lambda>j. map_of i2l (label_row ! j) \<noteq> Some ''X'' \<and> map_of i2l (label_row ! j) \<noteq> Some ''[PAD]'')
       [0..<length (takeWhile (\<lambda>m. m \<noteq> 0) mask_row)]"

definition row_result ::
  "(int \<times> string) list \<Rightarrow> int list \<times> int list \<times> int list \<Rightarrow> string list \<Rightarrow> string list \<Rightarrow> bool" where
  "row_result i2l ex temp_1 temp_2 \<longleftrightarrow>
     (case ex of (mask_row, label_row, pred_row) \<Rightarrow>
        temp_1 = map (\<lambda>j. the (map_of i2l (label_row ! j))) (compared i2l mask_row label_row) \<and>
        temp_2 = map (\<lambda>j. the (map_of i2l (pred_row ! j))) (compared i2l mask_row label_row) \<and>
        ''X'' \<notin> set temp_1 \<and> ''[PAD]'' \<notin> set temp_1)"

definition readable :: "(int \<times> string) list \<Rightarrow> batch \<Rightarrow> bool" where
  "readable i2l b \<longleftrightarrow>
     (\<forall>i \<in> set [0..<length (input_mask b)].
      \<forall>j \<in> set [0..<length (takeWhile (\<lambda>m. m \<noteq> 0) (input_mask b ! i))].
        i < length (label_ids b) \<and> j < length (label_ids b ! i) \<and>
        label_ids b ! i ! j \<in> fst ` set i2l \<and>
        i < length (logits b) \<and> j < length (logits b ! i) \<and>
        logits b ! i ! j \<in> fst ` set i2l)"

text \<open>A table of one row, to run the labeler on.\<close>

definition example_logs :: dataframe where
  "example_logs =
     [(''raw_preprocess'', [''q : a . b ok'']),
      (''host'', [''a.b'']),
      (''kind'', [''-''])]"

text \<open>A batch of one example, masked from its fourth position on.\<close>

definition example_batch :: batch where
  "example_batch =
     \<lparr>input_mask = [[1, 1, 1, 0, 1]], label_ids = [[1, - 100, 2, 0, 0]], logits = [[2, 2, 1, 3, 3]]\<rparr>"

section \<open>Punctuation splitting\<close>

lemma spaced_simps:
  "spaced S [] = []"
  "spaced S (c # cs) = (if c \<in> S then CHR '' '' # c # CHR '' '' # spaced S cs else c # spaced S cs)"
  by (simp_all add: spaced_def)

lemma replace_spaced:
  "s \<notin> S \<Longrightarrow> s \<noteq> CHR '' '' \<Longrightarrow>
   replace (spaced S text) s ([CHR '' ''] @ [s] @ [CHR '' '']) = spaced (insert s S) text"
  by (induction "text") (auto simp: spaced_simps)

lemma fold_replace_spaced:
  "distinct ps \<Longrightarrow> CHR '' '' \<notin> set ps \<Longrightarrow> set ps \<inter> S = {} \<Longrightarrow>
   fold (\<lambda>symbol text. replace text symbol ([CHR '' ''] @ [symbol] @ [CHR '' ''])) ps (spaced S text)
     = spaced (S \<union> set ps) text"
proof (induction ps arbitrary: S)
  case Nil
  then show ?case by simp
next
  case (Cons p ps)
  have "p \<notin> S" "p \<noteq> CHR '' ''" using Cons.prems by auto
  then have step: "replace (spaced S text) p ([CHR '' ''] @ [p] @ [CHR '' '']) = spaced (insert p S) text"
    by (rule replace_spaced)
  have "fold (\<lambda>symbol text. replace text symbol ([CHR '' ''] @ [symbol] @ [CHR '' ''])) ps (spaced (insert p S) text)
     = spaced (insert p S \<union> set ps) text"
    using Cons.prems by (intro Cons.IH) auto
  then show ?case using step by simp
qed

lemma distinct_punctuation: "distinct punctuation"
  by (simp add: punctuation_def)

lemma blank_not_punctuation: "CHR '' '' \<notin> set punctuation"
  by (simp add: punctuation_def)

lemma punctuation_not_space: "c \<in> set punctuation \<Longrightarrow> \<not> isspace c"
  by (auto simp add: punctuation_def isspace_def)

lemma isspace_blank: "isspace (CHR '' '')"
  by (simp add: isspace_def)

lemma spaced_empty: "spaced {} text = text"
  by (induction "text") (simp_all add: spaced_simps)

lemma punctuation_spliter_spaced: "punctuation_spliter text = spaced (set punctuation) text"
  using fold_replace_spaced [OF distinct_punctuation blank_not_punctuation, of "{}" "text"]
  by (simp add: punctuation_spliter_def spaced_empty)

lemma split_from_spaced_tokens:
  "\<forall>c \<in> set w. c \<notin> set punctuation \<Longrightarrow> t \<in> set (split_from w (spaced (set punctuation) s)) \<Longrightarrow>
   (\<exists>c \<in> set punctuation. t = [c]) \<or> (\<forall>c \<in> set t. c \<notin> set punctuation)"
proof (induction s arbitrary: w)
  case Nil
  then show ?case by (auto simp: spaced_simps split: if_splits)
next
  case (Cons a s)
  show ?case
  proof (cases "a \<in> set punctuation")
    case True
    then have ns: "\<not> isspace a" by (rule punctuation_not_space)
    from Cons.prems(2) True ns
    have "t = w \<or> t = [a] \<or> t \<in> set (split_from [] (spaced (set punctuation) s))"
      by (auto simp: spaced_simps isspace_blank split: if_splits)
    then show ?thesis using Cons.prems(1) True Cons.IH [of "[]"] by auto
  next
    case False
    show ?thesis
    proof (cases "isspace a")
      case True
      with Cons.prems(2) False
      have "t = w \<or> t \<in> set (split_from [] (spaced (set punctuation) s))"
        by (auto simp: spaced_simps split: if_splits)
      then show ?thesis using Cons.prems(1) Cons.IH [of "[]"] by auto
    next
      case nsp: False
      with Cons.prems(2) False
      have "t \<in> set (split_from (w @ [a]) (spaced (set punctuation) s))"
        by (auto simp: spaced_simps)
      moreover have "\<forall>c \<in> set (w @ [a]). c \<notin> set punctuation" using Cons.prems(1) False by auto
      ultimately show ?thesis using Cons.IH [of "w @ [a]"] by blast
    qed
  qed
qed

lemma filter_spaced:
  "filter (\<lambda>c. \<not> isspace c) (spaced (set punctuation) text) = filter (\<lambda>c. \<not> isspace c) text"
  by (induction "text") (auto simp: spaced_simps isspace_blank punctuation_not_space)

lemma concat_split_from: "concat (split_from w s) = w @ filter (\<lambda>c. \<not> isspace c) s"
  by (induction s arbitrary: w) auto

text \<open>
  Claim C5. Every word of the split result of \<open>punctuation_spliter\<close> is a single
  punctuation character or has no punctuation character in it; the characters that are not
  whitespace are the same, in the same order, in the result and in the input, and so is the
  concatenation of the words.
\<close>

theorem punctuation_spliter_tokens:
  "(\<forall>t \<in> set (str_split (punctuation_spliter text)).
       (\<exists>c \<in> set punctuation. t = [c]) \<or> (\<forall>c \<in> set t. c \<notin> set punctuation)) \<and>
   filter (\<lambda>c. \<not> isspace c) (punctuation_spliter text) = filter (\<lambda>c. \<not> isspace c) text \<and>
   concat (str_split (punctuation_spliter text)) = concat (str_split text)"
proof (intro conjI ballI)
  fix t assume "t \<in> set (str_split (punctuation_spliter text))"
  then show "(\<exists>c \<in> set punctuation. t = [c]) \<or> (\<forall>c \<in> set t. c \<notin> set punctuation)"
    using split_from_spaced_tokens [of "[]" t "text"]
    by (simp add: str_split_def punctuation_spliter_spaced)
next
  show "filter (\<lambda>c. \<not> isspace c) (punctuation_spliter text) = filter (\<lambda>c. \<not> isspace c) text"
    by (simp add: punctuation_spliter_spaced filter_spaced)
  then show "concat (str_split (punctuation_spliter text)) = concat (str_split text)"
    by (simp add: str_split_def concat_split_from)
qed

theorem punctuation_spliter_tokens_witness:
  "''.'' \<in> set (str_split (punctuation_spliter ''a.b  (x)'')) \<and>
   ((\<exists>c \<in> set punctuation. ''.'' = [c]) \<or> (\<forall>c \<in> set ''.''. c \<notin> set punctuation)) \<and>
   filter (\<lambda>c. \<not> isspace c) (punctuation_spliter ''a.b  (x)'') = ''a.b(x)''"
proof -
  have m: "''.'' \<in> set (str_split (punctuation_spliter ''a.b  (x)''))" by code_simp
  have f: "filter (\<lambda>c. \<not> isspace c) ''a.b  (x)'' = ''a.b(x)''" by code_simp
  from punctuation_spliter_tokens [of "''a.b  (x)''"] m f show ?thesis by auto
qed

section \<open>Slices and the inner loop of the labeler\<close>

lemma py_slice_eq_iff:
  assumes "length ys = n" "0 < n"
  shows "py_slice xs i (i + n) = ys \<longleftrightarrow> i + n \<le> length xs \<and> (\<forall>k<n. xs ! (i + k) = ys ! k)"
proof
  assume eq: "py_slice xs i (i + n) = ys"
  then have "length (take n (drop i xs)) = n" using assms by (simp add: py_slice_def)
  then have le: "i + n \<le> length xs" using assms by (simp add: min_def split: if_splits)
  have "\<forall>k<n. xs ! (i + k) = ys ! k"
  proof (intro allI impI)
    fix k assume "k < n"
    have "ys ! k = take n (drop i xs) ! k" using eq by (simp add: py_slice_def)
    also have "\<dots> = xs ! (i + k)" using \<open>k < n\<close> le by simp
    finally show "xs ! (i + k) = ys ! k" by simp
  qed
  with le show "i + n \<le> length xs \<and> (\<forall>k<n. xs ! (i + k) = ys ! k)" by simp
next
  assume r: "i + n \<le> length xs \<and> (\<forall>k<n. xs ! (i + k) = ys ! k)"
  show "py_slice xs i (i + n) = ys"
    unfolding py_slice_def
    by (rule nth_equalityI) (use r assms in auto)
qed

lemma free_at_nth:
  assumes "sublist \<noteq> []"
  shows "free_at raw_split sublist label_list ind \<longleftrightarrow>
     ind + length sublist \<le> length raw_split \<and> ind + length sublist \<le> length label_list \<and>
     (\<forall>k<length sublist. raw_split ! (ind + k) = sublist ! k) \<and>
     (\<forall>k<length sublist. label_list ! (ind + k) = ''O'')"
proof -
  have n: "0 < length sublist" using assms by simp
  show ?thesis
    unfolding free_at_def
    using py_slice_eq_iff [of sublist "length sublist" raw_split ind, OF refl n]
      py_slice_eq_iff [of "replicate (length sublist) ''O''" "length sublist" label_list ind, OF _ n]
    by auto
qed

lemma write_span_eq:
  assumes "ind + n \<le> length label_list" "0 < n"
  shows "write_span label_list ind col n =
     take ind label_list @ ((''B-'' @ col) # replicate (n - 1) (''I-'' @ col)) @ drop (ind + n) label_list"
proof -
  have "ind < length label_list" using assms by simp
  then have "take (Suc ind) (label_list[ind := ''B-'' @ col]) = take ind label_list @ [''B-'' @ col]"
    by (simp add: take_Suc_conv_app_nth)
  moreover have "max (Suc ind) (ind + n) = ind + n" using assms by simp
  ultimately show ?thesis by (simp add: write_span_def slice_assign_def)
qed

lemma length_write_span:
  assumes "ind + n \<le> length label_list" "0 < n"
  shows "length (write_span label_list ind col n) = length label_list"
  using assms by (simp add: write_span_eq)

lemma nth_write_span:
  assumes "ind + n \<le> length label_list" "0 < n" "p < length label_list"
  shows "write_span label_list ind col n ! p =
     (if p = ind then ''B-'' @ col else if ind < p \<and> p < ind + n then ''I-'' @ col else label_list ! p)"
proof -
  define mid where "mid = (''B-'' @ col) # replicate (n - 1) (''I-'' @ col)"
  have lm: "length mid = n" using assms(2) by (simp add: mid_def)
  have eq: "write_span label_list ind col n = take ind label_list @ mid @ drop (ind + n) label_list"
    using assms(1,2) by (simp add: write_span_eq mid_def)
  have len: "length (take ind label_list) = ind" using assms by simp
  consider "p < ind" | "ind \<le> p" "p < ind + n" | "ind + n \<le> p" by linarith
  then show ?thesis
  proof cases
    case 1
    then show ?thesis using len by (simp add: eq nth_append)
  next
    case 2
    then have "p - ind < n" by linarith
    with 2 have "write_span label_list ind col n ! p = mid ! (p - ind)"
      using len lm by (simp add: eq nth_append)
    also have "\<dots> = (if p = ind then ''B-'' @ col else ''I-'' @ col)"
      using 2 by (auto simp: mid_def nth_Cons')
    finally show ?thesis using 2 by auto
  next
    case 3
    then have "\<not> p < ind" "\<not> p - ind < n" by linarith+
    then have "write_span label_list ind col n ! p = drop (ind + n) label_list ! (p - ind - n)"
      using len lm by (simp add: eq nth_append)
    also have "\<dots> = label_list ! p" using 3 assms by simp
    finally show ?thesis using 3 assms(2) by auto
  qed
qed

lemma match_loop_matched:
  "sublist \<noteq> [] \<Longrightarrow> 0 < match_count \<Longrightarrow>
   match_loop raw_split sublist col es match_count label_list = Inr label_list"
  by (induction es) (auto split: list.splits)

lemma free_at_hd:
  assumes "sublist = s0 # ss" "free_at raw_split sublist label_list ind"
  shows "ind < length raw_split \<and> ind < length label_list \<and> raw_split ! ind = s0"
proof -
  have ne: "sublist \<noteq> []" using assms by simp
  from assms(2) have f: "ind + length sublist \<le> length raw_split" "ind + length sublist \<le> length label_list"
    "\<forall>k<length sublist. raw_split ! (ind + k) = sublist ! k"
    unfolding free_at_nth [OF ne] by auto
  from f(3) have "raw_split ! (ind + 0) = sublist ! 0" using assms(1) by (metis length_greater_0_conv ne)
  then show ?thesis using f assms(1) by simp
qed

lemma match_loop_Cons:
  "match_loop raw_split (s0 # ss) col ((ind, el) # rest) match_count label_list =
     (if el = s0 \<and> match_count < 1 \<and> free_at raw_split (s0 # ss) label_list ind then
        (if ind < length label_list then
           match_loop raw_split (s0 # ss) col rest 1 (write_span label_list ind col (length (s0 # ss)))
         else Inl IndexError)
      else match_loop raw_split (s0 # ss) col rest match_count label_list)"
  by (simp add: free_at_def write_span_def)

lemma match_loop_find:
  assumes "sublist \<noteq> []" "\<forall>(i, el) \<in> set es. el = raw_split ! i"
  shows "match_loop raw_split sublist col es 0 label_list =
     Inr (case find (free_at raw_split sublist label_list) (map fst es) of
            None \<Rightarrow> label_list
          | Some ind \<Rightarrow> write_span label_list ind col (length sublist))"
  using assms(2)
proof (induction es)
  case Nil
  then show ?case by simp
next
  case (Cons e es)
  obtain ind el where e: "e = (ind, el)" by (cases e)
  obtain s0 ss where s: "sublist = s0 # ss" using assms(1) by (cases sublist) auto
  have el: "el = raw_split ! ind" using Cons.prems e by simp
  have IH: "match_loop raw_split sublist col es 0 label_list =
     Inr (case find (free_at raw_split sublist label_list) (map fst es) of
            None \<Rightarrow> label_list
          | Some ind \<Rightarrow> write_span label_list ind col (length sublist))"
    using Cons by simp
  show ?case
  proof (cases "free_at raw_split sublist label_list ind")
    case True
    from free_at_hd [OF s True] have "ind < length label_list" "el = s0" using el by auto
    moreover have "match_loop raw_split sublist col es 1
        (write_span label_list ind col (length sublist)) = Inr (write_span label_list ind col (length sublist))"
      using assms(1) by (simp add: match_loop_matched)
    ultimately show ?thesis using True e s
      by (simp add: match_loop_Cons del: match_loop.simps)
  next
    case False
    then show ?thesis using e s IH
      by (simp add: match_loop_Cons del: match_loop.simps)
  qed
qed

lemma match_loop_first_free:
  assumes "sublist \<noteq> []"
  shows "match_loop raw_split sublist col (enumerate 0 raw_split) 0 label_list =
     Inr (case first_free raw_split sublist label_list of
            None \<Rightarrow> label_list
          | Some ind \<Rightarrow> write_span label_list ind col (length sublist))"
proof -
  have "\<forall>(i, el) \<in> set (enumerate 0 raw_split). el = raw_split ! i"
    by (auto simp: in_set_enumerate_eq)
  from match_loop_find [OF assms this] show ?thesis
    by (simp add: first_free_def)
qed

lemma match_loop_empty:
  "match_loop raw_split [] col es match_count label_list =
     (if es = [] then Inr label_list else Inl IndexError)"
  by (cases es) auto

lemma first_free_Some:
  "first_free raw_split sublist label_list = Some ind \<longleftrightarrow>
     ind < length raw_split \<and> free_at raw_split sublist label_list ind \<and>
     (\<forall>j<ind. \<not> free_at raw_split sublist label_list j)"
  unfolding first_free_def find_Some_iff by auto

section \<open>What the loop over the columns keeps\<close>

lemma span_at_nth:
  "span_at raw_split sublist col label_list ind \<longleftrightarrow>
     sublist \<noteq> [] \<and>
     ind + length sublist \<le> length raw_split \<and> ind + length sublist \<le> length label_list \<and>
     (\<forall>k<length sublist. raw_split ! (ind + k) = sublist ! k) \<and>
     (\<forall>k<length sublist. label_list ! (ind + k) = (if k = 0 then ''B-'' @ col else ''I-'' @ col))"
proof (cases "sublist = []")
  case True
  then show ?thesis by (simp add: span_at_def)
next
  case False
  then have n: "0 < length sublist" by simp
  have l: "length ((''B-'' @ col) # replicate (length sublist - 1) (''I-'' @ col)) = length sublist"
    using n by simp
  have nth: "\<And>k. k < length sublist \<Longrightarrow>
      ((''B-'' @ col) # replicate (length sublist - 1) (''I-'' @ col)) ! k =
      (if k = 0 then ''B-'' @ col else ''I-'' @ col)"
    by (auto simp: nth_Cons')
  show ?thesis
    unfolding span_at_def
    using py_slice_eq_iff [of sublist "length sublist" raw_split ind, OF refl n]
      py_slice_eq_iff [OF l n, of label_list ind] nth False
    by auto
qed

lemma write_span_keeps_span:
  assumes sp: "span_at raw_split sublist' col' label_list ind'"
    and fr: "free_at raw_split sublist label_list ind" and ne: "sublist \<noteq> []"
  shows "span_at raw_split sublist' col' (write_span label_list ind col (length sublist)) ind'"
proof -
  let ?n = "length sublist" and ?n' = "length sublist'"
  from fr ne have f: "ind + ?n \<le> length label_list" "\<forall>k<?n. label_list ! (ind + k) = ''O''"
    by (simp_all add: free_at_nth)
  have n: "0 < ?n" using ne by simp
  from sp have s: "sublist' \<noteq> []" "ind' + ?n' \<le> length raw_split" "ind' + ?n' \<le> length label_list"
    "\<forall>k<?n'. raw_split ! (ind' + k) = sublist' ! k"
    "\<forall>k<?n'. label_list ! (ind' + k) = (if k = 0 then ''B-'' @ col' else ''I-'' @ col')"
    by (simp_all add: span_at_nth)
  have keep: "write_span label_list ind col ?n ! (ind' + k) = label_list ! (ind' + k)" if k: "k < ?n'" for k
  proof -
    have lt: "ind' + k < length label_list" using k s(3) by simp
    have nO: "label_list ! (ind' + k) \<noteq> ''O''" using s(5) k by auto
    have "\<not> (ind \<le> ind' + k \<and> ind' + k < ind + ?n)"
    proof
      assume a: "ind \<le> ind' + k \<and> ind' + k < ind + ?n"
      then have "ind' + k - ind < ?n" by linarith
      with f(2) have "label_list ! (ind + (ind' + k - ind)) = ''O''" by blast
      then show False using a nO by simp
    qed
    then show ?thesis using nth_write_span [OF f(1) n lt, of col] n by auto
  qed
  show ?thesis
    unfolding span_at_nth
    using s keep length_write_span [OF f(1) n, of col] by auto
qed

lemma write_span_makes_span:
  assumes fr: "free_at raw_split sublist label_list ind" and ne: "sublist \<noteq> []"
  shows "span_at raw_split sublist col (write_span label_list ind col (length sublist)) ind"
proof -
  let ?n = "length sublist"
  from fr ne have f: "ind + ?n \<le> length raw_split" "ind + ?n \<le> length label_list"
    "\<forall>k<?n. raw_split ! (ind + k) = sublist ! k"
    by (simp_all add: free_at_nth)
  have n: "0 < ?n" using ne by simp
  have "write_span label_list ind col ?n ! (ind + k) = (if k = 0 then ''B-'' @ col else ''I-'' @ col)"
    if "k < ?n" for k
    using nth_write_span [OF f(2) n, of "ind + k" col] that f(2) by auto
  then show ?thesis
    unfolding span_at_nth
    using f ne length_write_span [OF f(2) n, of col] by auto
qed

lemma length_label_col:
  "sublist \<noteq> [] \<Longrightarrow> length (label_col raw_split sublist col label_list) = length label_list"
  by (auto simp: label_col_def first_free_Some free_at_nth length_write_span split: option.splits)

lemma label_col_keeps_span:
  "sublist \<noteq> [] \<Longrightarrow> span_at raw_split sublist' col' label_list ind' \<Longrightarrow>
   span_at raw_split sublist' col' (label_col raw_split sublist col label_list) ind'"
  by (auto simp: label_col_def first_free_Some write_span_keeps_span split: option.splits)

lemma label_col_change:
  assumes ne: "sublist \<noteq> []" and p: "p < length label_list"
  shows "label_col raw_split sublist col label_list ! p = label_list ! p \<or>
     (label_list ! p = ''O'' \<and>
      (\<exists>ind. ind \<le> p \<and> p < ind + length sublist \<and>
         span_at raw_split sublist col (label_col raw_split sublist col label_list) ind))"
proof (cases "first_free raw_split sublist label_list")
  case None
  then show ?thesis by (simp add: label_col_def)
next
  case (Some ind)
  then have fr: "free_at raw_split sublist label_list ind" by (simp add: first_free_Some)
  let ?n = "length sublist"
  from fr ne have f: "ind + ?n \<le> length label_list" "\<forall>k<?n. label_list ! (ind + k) = ''O''"
    by (simp_all add: free_at_nth)
  have n: "0 < ?n" using ne by simp
  have eq: "label_col raw_split sublist col label_list = write_span label_list ind col ?n"
    using Some by (simp add: label_col_def)
  show ?thesis
  proof (cases "ind \<le> p \<and> p < ind + ?n")
    case True
    then have "p - ind < ?n" by linarith
    with f(2) have "label_list ! (ind + (p - ind)) = ''O''" by blast
    then have "label_list ! p = ''O''" using True by simp
    then show ?thesis using True write_span_makes_span [OF fr ne, of col] eq by auto
  next
    case False
    then show ?thesis using nth_write_span [OF f(1) n p, of col] eq n by auto
  qed
qed

lemma label_cols_Cons:
  "label_cols logs_df index_no raw_split (col # cols) label_list = Inr final \<Longrightarrow>
   label_cols logs_df index_no raw_split cols
     (if col_sublist logs_df index_no col = [] then label_list
      else label_col raw_split (col_sublist logs_df index_no col) col label_list) = Inr final"
  by (auto simp: col_sublist_def label_col_def match_loop_first_free match_loop_empty
      split: sum.splits if_splits)

lemma length_label_cols:
  "label_cols logs_df index_no raw_split cols label_list = Inr final \<Longrightarrow>
   length final = length label_list"
proof (induction cols arbitrary: label_list)
  case Nil
  then show ?case by simp
next
  case (Cons col cols)
  from Cons.IH [OF label_cols_Cons [OF Cons.prems]] show ?case
    by (simp add: length_label_col split: if_splits)
qed

lemma label_cols_keeps_span:
  "label_cols logs_df index_no raw_split cols label_list = Inr final \<Longrightarrow>
   span_at raw_split sublist' col' label_list ind' \<Longrightarrow>
   span_at raw_split sublist' col' final ind'"
proof (induction cols arbitrary: label_list)
  case Nil
  then show ?case by simp
next
  case (Cons col cols)
  show ?case
    using Cons.IH [OF label_cols_Cons [OF Cons.prems(1)]] Cons.prems(2)
    by (auto simp: label_col_keeps_span split: if_splits)
qed

lemma label_cols_change:
  "label_cols logs_df index_no raw_split cols label_list = Inr final \<Longrightarrow> p < length label_list \<Longrightarrow>
   final ! p = label_list ! p \<or>
   (label_list ! p = ''O'' \<and>
    (\<exists>col \<in> set cols. \<exists>ind. ind \<le> p \<and> p < ind + length (col_sublist logs_df index_no col) \<and>
        span_at raw_split (col_sublist logs_df index_no col) col final ind))"
proof (induction cols arbitrary: label_list)
  case Nil
  then show ?case by simp
next
  case (Cons col cols)
  let ?sub = "col_sublist logs_df index_no col"
  let ?mid = "if ?sub = [] then label_list else label_col raw_split ?sub col label_list"
  have run: "label_cols logs_df index_no raw_split cols ?mid = Inr final"
    by (rule label_cols_Cons [OF Cons.prems(1)])
  have len: "length ?mid = length label_list" by (simp add: length_label_col)
  from Cons.IH [OF run] Cons.prems(2) len
  have later: "final ! p = ?mid ! p \<or>
     (?mid ! p = ''O'' \<and>
      (\<exists>c \<in> set cols. \<exists>ind. ind \<le> p \<and> p < ind + length (col_sublist logs_df index_no c) \<and>
          span_at raw_split (col_sublist logs_df index_no c) c final ind))"
    by simp
  show ?case
  proof (cases "?sub = []")
    case True
    then show ?thesis using later by auto
  next
    case False
    from label_col_change [OF False Cons.prems(2), of raw_split col]
    consider "?mid ! p = label_list ! p"
      | ind where "label_list ! p = ''O''" "ind \<le> p" "p < ind + length ?sub" "span_at raw_split ?sub col ?mid ind"
      using False by auto
    then show ?thesis
    proof cases
      case 1
      then show ?thesis using later by auto
    next
      case 2
      from label_cols_keeps_span [OF run 2(4)] have sp: "span_at raw_split ?sub col final ind" .
      then show ?thesis using 2 by auto
    qed
  qed
qed

lemma span_at_label:
  assumes "span_at raw_split sublist col label_list ind" "ind \<le> p" "p < ind + length sublist"
  shows "label_list ! p = (if p = ind then ''B-'' @ col else ''I-'' @ col)"
proof -
  have "p - ind < length sublist" using assms by linarith
  with assms(1) have "label_list ! (ind + (p - ind)) = (if p - ind = 0 then ''B-'' @ col else ''I-'' @ col)"
    unfolding span_at_nth by blast
  then show ?thesis using assms(2) by auto
qed

section \<open>Properties of the labeler\<close>

lemma labeler_Inr:
  assumes "labeler logs_df index_no cols = Inr label_list"
  obtains raw where "df_get logs_df ''raw_preprocess'' index_no = Inr raw"
    and "label_cols logs_df index_no (str_split raw) cols
           (replicate (length (str_split raw)) ''O'') = Inr label_list"
  using assms by (auto simp: labeler_def split: sum.splits)

lemma col_sublist_nonempty:
  assumes "col_sublist logs_df index_no col \<noteq> []"
  obtains col_value where "df_get logs_df col index_no = Inr col_value" "col_value \<notin> skip_values"
    "col_sublist logs_df index_no col = str_split (punctuation_spliter col_value)"
  using assms by (auto simp: col_sublist_def split: sum.splits if_splits)

lemma labeler_length:
  assumes "labeler logs_df index_no cols = Inr label_list"
    and "df_get logs_df ''raw_preprocess'' index_no = Inr raw"
  shows "length label_list = length (str_split raw)"
  using assms by (auto simp: labeler_def dest: length_label_cols)

lemma labeler_covered:
  assumes run: "labeler logs_df index_no cols = Inr label_list"
    and raw: "df_get logs_df ''raw_preprocess'' index_no = Inr raw"
    and p: "p < length label_list"
  shows "label_list ! p = ''O'' \<or>
    (\<exists>col \<in> set cols. \<exists>ind. ind \<le> p \<and> p < ind + length (col_sublist logs_df index_no col) \<and>
        span_at (str_split raw) (col_sublist logs_df index_no col) col label_list ind)"
proof -
  let ?init = "replicate (length (str_split raw)) ''O''"
  have lc: "label_cols logs_df index_no (str_split raw) cols ?init = Inr label_list"
    using run raw by (simp add: labeler_def)
  have p': "p < length ?init" using p labeler_length [OF run raw] by simp
  from label_cols_change [OF lc p'] p' show ?thesis by auto
qed

text \<open>
  Claim C1. Where the list that \<open>labeler\<close> returns holds \<open>'B-'+col\<close> at position \<open>i\<close>,
  \<open>col\<close> is one of the columns, its punctuation-split value has at least one word, and
  these words stand in the split log from position \<open>i\<close> on, word for word.
\<close>

theorem labeler_B_label_matches:
  assumes run: "labeler logs_df index_no cols = Inr label_list"
    and i: "i < length label_list"
    and B: "label_list ! i = ''B-'' @ col"
  shows "\<exists>raw col_value.
     df_get logs_df ''raw_preprocess'' index_no = Inr raw \<and>
     col \<in> set cols \<and> df_get logs_df col index_no = Inr col_value \<and>
     str_split (punctuation_spliter col_value) \<noteq> [] \<and>
     py_slice (str_split raw) i (i + length (str_split (punctuation_spliter col_value)))
       = str_split (punctuation_spliter col_value)"
proof -
  from run obtain raw where raw: "df_get logs_df ''raw_preprocess'' index_no = Inr raw"
    by (rule labeler_Inr)
  from labeler_covered [OF run raw i] B
  obtain c ind where c: "c \<in> set cols" "ind \<le> i" "i < ind + length (col_sublist logs_df index_no c)"
    and sp: "span_at (str_split raw) (col_sublist logs_df index_no c) c label_list ind"
    by auto
  from span_at_label [OF sp c(2,3)] B have "i = ind" "c = col"
    by (auto split: if_splits)
  with sp have sp': "span_at (str_split raw) (col_sublist logs_df index_no col) col label_list i"
    by simp
  then have ne: "col_sublist logs_df index_no col \<noteq> []" by (simp add: span_at_def)
  then obtain col_value where v: "df_get logs_df col index_no = Inr col_value"
    "col_sublist logs_df index_no col = str_split (punctuation_spliter col_value)"
    by (rule col_sublist_nonempty)
  show ?thesis
    using raw c(1) \<open>c = col\<close> v sp' by (auto simp: span_at_def)
qed

theorem labeler_B_label_matches_witness:
  "labeler example_logs 0 [''host'', ''kind''] = Inr [''O'', ''O'', ''B-host'', ''I-host'', ''I-host'', ''O''] \<and>
   (\<exists>raw col_value.
     df_get example_logs ''raw_preprocess'' 0 = Inr raw \<and>
     ''host'' \<in> set [''host'', ''kind''] \<and> df_get example_logs ''host'' 0 = Inr col_value \<and>
     str_split (punctuation_spliter col_value) \<noteq> [] \<and>
     py_slice (str_split raw) 2 (2 + length (str_split (punctuation_spliter col_value)))
       = str_split (punctuation_spliter col_value))"
proof -
  have run: "labeler example_logs 0 [''host'', ''kind''] = Inr [''O'', ''O'', ''B-host'', ''I-host'', ''I-host'', ''O'']"
    by code_simp
  from labeler_B_label_matches [OF run, of 2 "''host''"] run show ?thesis by simp
qed

text \<open>
  Claim C2. In the list that \<open>labeler\<close> returns, every position holds \<open>'O'\<close>, \<open>'B-'+col\<close> or
  \<open>'I-'+col\<close> for one of the columns; a position with \<open>'I-'+col\<close> is not the first and the
  position before it holds \<open>'B-'+col\<close> or \<open>'I-'+col\<close>; and a position that does not hold
  \<open>'O'\<close> lies in a span that starts with \<open>'B-'+col\<close>, goes on with \<open>'I-'+col\<close> and covers an
  occurrence of the words of that column's value in the log. So a position outside every
  such span holds \<open>'O'\<close>.
\<close>

theorem labeler_bio_well_formed:
  assumes run: "labeler logs_df index_no cols = Inr label_list"
    and i: "i < length label_list"
  shows "(label_list ! i = ''O'' \<or>
          (\<exists>col \<in> set cols. label_list ! i = ''B-'' @ col \<or> label_list ! i = ''I-'' @ col)) \<and>
         (\<forall>col. label_list ! i = ''I-'' @ col \<longrightarrow>
            0 < i \<and> (label_list ! (i - 1) = ''B-'' @ col \<or> label_list ! (i - 1) = ''I-'' @ col)) \<and>
         (label_list ! i \<noteq> ''O'' \<longrightarrow>
            (\<exists>raw col col_value ind.
               df_get logs_df ''raw_preprocess'' index_no = Inr raw \<and>
               col \<in> set cols \<and> df_get logs_df col index_no = Inr col_value \<and>
               ind \<le> i \<and> i < ind + length (str_split (punctuation_spliter col_value)) \<and>
               py_slice (str_split raw) ind (ind + length (str_split (punctuation_spliter col_value)))
                 = str_split (punctuation_spliter col_value) \<and>
               py_slice label_list ind (ind + length (str_split (punctuation_spliter col_value)))
                 = (''B-'' @ col) #
                   replicate (length (str_split (punctuation_spliter col_value)) - 1) (''I-'' @ col)))"
proof (cases "label_list ! i = ''O''")
  case True
  then show ?thesis by simp
next
  case False
  from run obtain raw where raw: "df_get logs_df ''raw_preprocess'' index_no = Inr raw"
    by (rule labeler_Inr)
  from labeler_covered [OF run raw i] False
  obtain c ind where c: "c \<in> set cols" "ind \<le> i" "i < ind + length (col_sublist logs_df index_no c)"
    and sp: "span_at (str_split raw) (col_sublist logs_df index_no c) c label_list ind"
    by auto
  have lab: "label_list ! i = (if i = ind then ''B-'' @ c else ''I-'' @ c)"
    by (rule span_at_label [OF sp c(2,3)])
  have prev: "0 < i \<and> (label_list ! (i - 1) = ''B-'' @ col \<or> label_list ! (i - 1) = ''I-'' @ col)"
    if I: "label_list ! i = ''I-'' @ col" for col
  proof -
    from I lab have ne: "i \<noteq> ind" and cc: "c = col" by (auto split: if_splits)
    then have "ind \<le> i - 1" "i - 1 < ind + length (col_sublist logs_df index_no c)" "0 < i"
      using c by linarith+
    with span_at_label [OF sp, of "i - 1"] cc show ?thesis by auto
  qed
  from sp have ne: "col_sublist logs_df index_no c \<noteq> []" by (simp add: span_at_def)
  then obtain col_value where v: "df_get logs_df c index_no = Inr col_value"
    "col_sublist logs_df index_no c = str_split (punctuation_spliter col_value)"
    by (rule col_sublist_nonempty)
  have third: "\<exists>raw col col_value ind.
               df_get logs_df ''raw_preprocess'' index_no = Inr raw \<and>
               col \<in> set cols \<and> df_get logs_df col index_no = Inr col_value \<and>
               ind \<le> i \<and> i < ind + length (str_split (punctuation_spliter col_value)) \<and>
               py_slice (str_split raw) ind (ind + length (str_split (punctuation_spliter col_value)))
                 = str_split (punctuation_spliter col_value) \<and>
               py_slice label_list ind (ind + length (str_split (punctuation_spliter col_value)))
                 = (''B-'' @ col) #
                   replicate (length (str_split (punctuation_spliter col_value)) - 1) (''I-'' @ col)"
  proof (intro exI conjI)
    show "df_get logs_df ''raw_preprocess'' index_no = Inr raw" by (rule raw)
    show "c \<in> set cols" by (rule c(1))
    show "df_get logs_df c index_no = Inr col_value" by (rule v(1))
    show "ind \<le> i" by (rule c(2))
    show "i < ind + length (str_split (punctuation_spliter col_value))" using c(3) v(2) by simp
    show "py_slice (str_split raw) ind (ind + length (str_split (punctuation_spliter col_value)))
                 = str_split (punctuation_spliter col_value)"
      using sp v(2) by (simp add: span_at_def)
    show "py_slice label_list ind (ind + length (str_split (punctuation_spliter col_value)))
                 = (''B-'' @ c) #
                   replicate (length (str_split (punctuation_spliter col_value)) - 1) (''I-'' @ c)"
      using sp v(2) by (simp add: span_at_def)
  qed
  have first: "\<exists>col \<in> set cols. label_list ! i = ''B-'' @ col \<or> label_list ! i = ''I-'' @ col"
    using lab c(1) by (auto split: if_splits)
  show ?thesis
  proof (intro conjI)
    show "label_list ! i = ''O'' \<or>
          (\<exists>col \<in> set cols. label_list ! i = ''B-'' @ col \<or> label_list ! i = ''I-'' @ col)"
      using first by (rule disjI2)
    show "\<forall>col. label_list ! i = ''I-'' @ col \<longrightarrow>
            0 < i \<and> (label_list ! (i - 1) = ''B-'' @ col \<or> label_list ! (i - 1) = ''I-'' @ col)"
      using prev by blast
    show "label_list ! i \<noteq> ''O'' \<longrightarrow>
            (\<exists>raw col col_value ind.
               df_get logs_df ''raw_preprocess'' index_no = Inr raw \<and>
               col \<in> set cols \<and> df_get logs_df col index_no = Inr col_value \<and>
               ind \<le> i \<and> i < ind + length (str_split (punctuation_spliter col_value)) \<and>
               py_slice (str_split raw) ind (ind + length (str_split (punctuation_spliter col_value)))
                 = str_split (punctuation_spliter col_value) \<and>
               py_slice label_list ind (ind + length (str_split (punctuation_spliter col_value)))
                 = (''B-'' @ col) #
                   replicate (length (str_split (punctuation_spliter col_value)) - 1) (''I-'' @ col))"
      using third by (rule impI)
  qed
qed

theorem labeler_bio_well_formed_witness:
  "labeler example_logs 0 [''host'', ''kind''] = Inr [''O'', ''O'', ''B-host'', ''I-host'', ''I-host'', ''O''] \<and>
   0 < (3::nat) \<and>
   ([''O'', ''O'', ''B-host'', ''I-host'', ''I-host'', ''O''] ! (3 - 1) = ''B-'' @ ''host'' \<or> [''O'', ''O'', ''B-host'', ''I-host'', ''I-host'', ''O''] ! (3 - 1) = ''I-'' @ ''host'')"
proof -
  have run: "labeler example_logs 0 [''host'', ''kind''] = Inr [''O'', ''O'', ''B-host'', ''I-host'', ''I-host'', ''O'']"
    by code_simp
  have i: "3 < length [''O'', ''O'', ''B-host'', ''I-host'', ''I-host'', ''O'']" by simp
  have I: "[''O'', ''O'', ''B-host'', ''I-host'', ''I-host'', ''O''] ! 3 = ''I-'' @ ''host''" by simp
  from labeler_bio_well_formed [OF run i] I
  have "0 < (3::nat) \<and>
   ([''O'', ''O'', ''B-host'', ''I-host'', ''I-host'', ''O''] ! (3 - 1) = ''B-'' @ ''host'' \<or> [''O'', ''O'', ''B-host'', ''I-host'', ''I-host'', ''O''] ! (3 - 1) = ''I-'' @ ''host'')"
    by blast
  with run show ?thesis by (rule conjI)
qed

lemma label_cols_returns:
  assumes "\<forall>col \<in> set cols. \<exists>col_value. df_get logs_df col index_no = Inr col_value \<and>
             (col_value \<in> skip_values \<or> str_split (punctuation_spliter col_value) \<noteq> [])"
  shows "\<exists>final. label_cols logs_df index_no raw_split cols label_list = Inr final"
  using assms
proof (induction cols arbitrary: label_list)
  case Nil
  then show ?case by simp
next
  case (Cons col cols)
  then obtain col_value where v: "df_get logs_df col index_no = Inr col_value"
    "col_value \<in> skip_values \<or> str_split (punctuation_spliter col_value) \<noteq> []"
    by auto
  have rest: "\<exists>final. label_cols logs_df index_no raw_split cols l = Inr final" for l
    using Cons.IH Cons.prems by simp
  show ?case
  proof (cases "col_value \<in> skip_values")
    case True
    then show ?thesis using v rest by simp
  next
    case False
    with v have ne: "str_split (punctuation_spliter col_value) \<noteq> []" by simp
    show ?thesis using v False rest by (simp add: match_loop_first_free [OF ne])
  qed
qed

text \<open>
  Claim C3, amended. For a row of the table, \<open>labeler\<close> returns a list when every cell it
  reads is there and holds a skipped value or at least one word; and every list it returns
  has exactly one label for each word of the split log, however many columns match and
  whatever the lengths of their values.
\<close>

theorem labeler_one_label_per_token:
  assumes raw: "df_get logs_df ''raw_preprocess'' index_no = Inr raw"
  shows "(\<forall>label_list. labeler logs_df index_no cols = Inr label_list \<longrightarrow>
            length label_list = length (str_split raw)) \<and>
         ((\<forall>col \<in> set cols. \<exists>col_value. df_get logs_df col index_no = Inr col_value \<and>
             (col_value \<in> skip_values \<or> str_split (punctuation_spliter col_value) \<noteq> [])) \<longrightarrow>
          (\<exists>label_list. labeler logs_df index_no cols = Inr label_list))"
proof (intro conjI allI impI)
  fix label_list assume "labeler logs_df index_no cols = Inr label_list"
  then show "length label_list = length (str_split raw)" using raw by (rule labeler_length)
next
  assume "\<forall>col \<in> set cols. \<exists>col_value. df_get logs_df col index_no = Inr col_value \<and>
             (col_value \<in> skip_values \<or> str_split (punctuation_spliter col_value) \<noteq> [])"
  from label_cols_returns [OF this] show "\<exists>label_list. labeler logs_df index_no cols = Inr label_list"
    using raw by (simp add: labeler_def)
qed

theorem labeler_one_label_per_token_witness:
  "df_get example_logs ''raw_preprocess'' 0 = Inr ''q : a . b ok'' \<and>
   (\<exists>label_list. labeler example_logs 0 [''host'', ''kind''] = Inr label_list \<and>
      length label_list = length (str_split ''q : a . b ok''))"
proof -
  have raw: "df_get example_logs ''raw_preprocess'' 0 = Inr ''q : a . b ok''" by code_simp
  have h: "df_get example_logs ''host'' 0 = Inr ''a.b''" by code_simp
  have k: "df_get example_logs ''kind'' 0 = Inr ''-''" by code_simp
  have hs: "str_split (punctuation_spliter ''a.b'') \<noteq> []" by code_simp
  have ks: "''-'' \<in> skip_values" by (simp add: skip_values_def)
  have cells: "\<forall>col \<in> set [''host'', ''kind'']. \<exists>col_value. df_get example_logs col 0 = Inr col_value \<and>
             (col_value \<in> skip_values \<or> str_split (punctuation_spliter col_value) \<noteq> [])"
    using h k hs ks by simp
  from labeler_one_label_per_token [OF raw, of "[''host'', ''kind'']"] cells
  have "\<exists>label_list. labeler example_logs 0 [''host'', ''kind''] = Inr label_list \<and>
      length label_list = length (str_split ''q : a . b ok'')"
    by blast
  with raw show ?thesis by (rule conjI)
qed

text \<open>
  A cell of blanks only is not skipped and has no word: \<open>sublist[0]\<close> raises at the first
  word of the log, and \<open>labeler\<close> returns no list for the row.
\<close>

theorem labeler_blank_cell_counterexample:
  "df_get [(''raw_preprocess'', [''a'']), (''note'', ['' ''])] ''raw_preprocess'' 0 = Inr ''a'' \<and>
   df_get [(''raw_preprocess'', [''a'']), (''note'', ['' ''])] ''note'' 0 = Inr '' '' \<and>
   labeler [(''raw_preprocess'', [''a'']), (''note'', ['' ''])] 0 [''note''] = Inl IndexError"
  by code_simp

lemma label_cols_skip:
  assumes "df_get logs_df col index_no = Inr col_value" "col_value \<in> skip_values"
  shows "label_cols logs_df index_no raw_split cols label_list =
         label_cols logs_df index_no raw_split (removeAll col cols) label_list"
proof (induction cols arbitrary: label_list)
  case Nil
  then show ?case by simp
next
  case (Cons c cols)
  show ?case
  proof (cases "c = col")
    case True
    then show ?thesis using assms Cons.IH by simp
  next
    case False
    then show ?thesis using Cons.IH by (simp split: sum.splits)
  qed
qed

text \<open>
  Claim C9. A column whose cell reads \<open>''\<close>, \<open>'-'\<close>, \<open>'None'\<close> or \<open>'NaN'\<close> is skipped: \<open>labeler\<close>
  gives the same result, a list or an exception, as without that column, and no position of
  a list it returns holds \<open>'B-'+col\<close> or \<open>'I-'+col\<close> for it.
\<close>

theorem labeler_skips_empty_values:
  assumes v: "df_get logs_df col index_no = Inr col_value" and sk: "col_value \<in> skip_values"
  shows "labeler logs_df index_no cols = labeler logs_df index_no (removeAll col cols) \<and>
         (\<forall>label_list. labeler logs_df index_no cols = Inr label_list \<longrightarrow>
            ''B-'' @ col \<notin> set label_list \<and> ''I-'' @ col \<notin> set label_list)"
proof (intro conjI allI impI)
  show "labeler logs_df index_no cols = labeler logs_df index_no (removeAll col cols)"
    by (simp add: labeler_def label_cols_skip [OF v sk, symmetric] split: sum.splits)
next
  fix label_list assume run: "labeler logs_df index_no cols = Inr label_list"
  from run obtain raw where raw: "df_get logs_df ''raw_preprocess'' index_no = Inr raw"
    by (rule labeler_Inr)
  have empty: "col_sublist logs_df index_no col = []" using v sk by (simp add: col_sublist_def)
  have "l \<noteq> ''B-'' @ col \<and> l \<noteq> ''I-'' @ col" if "l \<in> set label_list" for l
  proof -
    from that obtain p where p: "p < length label_list" "label_list ! p = l"
      by (auto simp: in_set_conv_nth)
    from labeler_covered [OF run raw p(1)]
    show ?thesis
    proof
      assume "label_list ! p = ''O''"
      then show ?thesis using p by auto
    next
      assume "\<exists>c \<in> set cols. \<exists>ind. ind \<le> p \<and> p < ind + length (col_sublist logs_df index_no c) \<and>
        span_at (str_split raw) (col_sublist logs_df index_no c) c label_list ind"
      then obtain c ind where c: "ind \<le> p" "p < ind + length (col_sublist logs_df index_no c)"
        "span_at (str_split raw) (col_sublist logs_df index_no c) c label_list ind"
        by auto
      then have "c \<noteq> col" using empty by auto
      with span_at_label [OF c(3) c(1,2)] p show ?thesis by (auto split: if_splits)
    qed
  qed
  then show "''B-'' @ col \<notin> set label_list" "''I-'' @ col \<notin> set label_list" by auto
qed

theorem labeler_skips_empty_values_witness:
  "df_get example_logs ''kind'' 0 = Inr ''-'' \<and> ''-'' \<in> skip_values \<and>
   labeler example_logs 0 [''host'', ''kind''] = labeler example_logs 0 (removeAll ''kind'' [''host'', ''kind'']) \<and>
   labeler example_logs 0 [''host'', ''kind''] = Inr [''O'', ''O'', ''B-host'', ''I-host'', ''I-host'', ''O''] \<and>
   ''B-'' @ ''kind'' \<notin> set [''O'', ''O'', ''B-host'', ''I-host'', ''I-host'', ''O''] \<and> ''I-'' @ ''kind'' \<notin> set [''O'', ''O'', ''B-host'', ''I-host'', ''I-host'', ''O'']"
proof -
  have run: "labeler example_logs 0 [''host'', ''kind''] = Inr [''O'', ''O'', ''B-host'', ''I-host'', ''I-host'', ''O'']"
    by code_simp
  have k: "df_get example_logs ''kind'' 0 = Inr ''-''" by code_simp
  have ks: "''-'' \<in> skip_values" by (simp add: skip_values_def)
  from labeler_skips_empty_values [OF k ks, of "[''host'', ''kind'']"] run
  have "labeler example_logs 0 [''host'', ''kind''] = labeler example_logs 0 (removeAll ''kind'' [''host'', ''kind'']) \<and>
   ''B-'' @ ''kind'' \<notin> set [''O'', ''O'', ''B-host'', ''I-host'', ''I-host'', ''O''] \<and> ''I-'' @ ''kind'' \<notin> set [''O'', ''O'', ''B-host'', ''I-host'', ''I-host'', ''O'']"
    by blast
  with run k ks show ?thesis by blast
qed

section \<open>One span for a column\<close>

lemma label_cols_append:
  "label_cols logs_df index_no raw_split (xs @ ys) label_list =
     (case label_cols logs_df index_no raw_split xs label_list of
        Inl e \<Rightarrow> Inl e
      | Inr mid \<Rightarrow> label_cols logs_df index_no raw_split ys mid)"
  by (induction xs arbitrary: label_list) (simp_all split: sum.splits)

lemma label_cols_single:
  assumes "label_cols logs_df index_no raw_split [col] label_list = Inr after"
  obtains col_value where "df_get logs_df col index_no = Inr col_value"
    "after = (if col_value \<in> skip_values then label_list
              else label_col raw_split (str_split (punctuation_spliter col_value)) col label_list)"
proof -
  from assms obtain col_value where v: "df_get logs_df col index_no = Inr col_value"
    by (auto split: sum.splits)
  show ?thesis
  proof (cases "col_value \<in> skip_values")
    case True
    then show ?thesis using assms v that by simp
  next
    case False
    show ?thesis
    proof (cases "str_split (punctuation_spliter col_value) = []")
      case True
      with assms v False have "raw_split = []"
        by (cases raw_split) (simp_all add: match_loop_empty)
      then have "label_col raw_split (str_split (punctuation_spliter col_value)) col label_list = label_list"
        by (simp add: label_col_def first_free_def)
      moreover have "after = label_list" using assms v False True \<open>raw_split = []\<close> by simp
      ultimately show ?thesis using v False that by simp
    next
      case ne: False
      have "after = label_col raw_split (str_split (punctuation_spliter col_value)) col label_list"
        using assms v False by (simp add: match_loop_first_free [OF ne] label_col_def)
      then show ?thesis using v False that by simp
    qed
  qed
qed

lemma label_cols_labels:
  assumes run: "label_cols logs_df index_no raw_split cols label_list = Inr final"
    and p: "p < length label_list"
  shows "final ! p = label_list ! p \<or>
     (label_list ! p = ''O'' \<and> (\<exists>c \<in> set cols. final ! p = ''B-'' @ c \<or> final ! p = ''I-'' @ c))"
proof -
  from label_cols_change [OF run p]
  show ?thesis
  proof
    assume "final ! p = label_list ! p"
    then show ?thesis by simp
  next
    assume "label_list ! p = ''O'' \<and>
      (\<exists>col \<in> set cols. \<exists>ind. ind \<le> p \<and> p < ind + length (col_sublist logs_df index_no col) \<and>
        span_at raw_split (col_sublist logs_df index_no col) col final ind)"
    then obtain c ind where O: "label_list ! p = ''O''" and c: "c \<in> set cols" "ind \<le> p"
      "p < ind + length (col_sublist logs_df index_no c)"
      "span_at raw_split (col_sublist logs_df index_no c) c final ind"
      by auto
    from span_at_label [OF c(4) c(2,3)] have "final ! p = ''B-'' @ c \<or> final ! p = ''I-'' @ c"
      by (auto split: if_splits)
    with O c(1) show ?thesis by auto
  qed
qed

lemma label_col_B:
  assumes B: "label_col raw_split sublist col label_list ! p = ''B-'' @ col"
    and old: "label_list ! p \<noteq> ''B-'' @ col" and p: "p < length label_list"
  shows "first_free raw_split sublist label_list = Some p"
proof (cases "first_free raw_split sublist label_list")
  case None
  then show ?thesis using B old by (simp add: label_col_def)
next
  case (Some ind)
  show ?thesis
  proof (cases "sublist = []")
    case True
    then have "write_span label_list ind col (length sublist) ! p =
        (if p = ind then ''B-'' @ col else label_list ! p)"
      using p by (auto simp: write_span_def slice_assign_def nth_append min_def)
    then show ?thesis using Some B old by (auto simp: label_col_def split: if_splits)
  next
    case False
    from Some have fr: "free_at raw_split sublist label_list ind" by (simp add: first_free_Some)
    with False have le: "ind + length sublist \<le> length label_list" by (simp add: free_at_nth)
    have n: "0 < length sublist" using False by simp
    from nth_write_span [OF le n p, of col] Some B old
    show ?thesis by (auto simp: label_col_def split: if_splits)
  qed
qed

text \<open>
  Claim C4. Take the columns as \<open>pre\<close>, then \<open>col\<close>, then \<open>post\<close>, and a run of \<open>labeler\<close> that
  returns \<open>final\<close>. \<open>labeler\<close> on \<open>pre\<close> returns the labels \<open>before\<close> the column is processed
  and on \<open>pre\<close> with \<open>col\<close> the labels \<open>after\<close> it. Then \<open>after\<close> is \<open>before\<close> when the value is
  skipped or has no occurrence whose positions all hold \<open>'O'\<close> in \<open>before\<close>; otherwise it is
  \<open>before\<close> with one span written at the earliest such occurrence. A position that does not
  hold \<open>'O'\<close> keeps its label from then on. Every position of \<open>final\<close> holds \<open>'O'\<close> or the
  label of exactly one column, and a column that occurs once among the columns has at
  most one position with \<open>'B-'+col\<close>.
\<close>

theorem labeler_one_span_per_column:
  assumes run: "labeler logs_df index_no (pre @ col # post) = Inr final"
  shows "\<exists>raw col_value before after.
     df_get logs_df ''raw_preprocess'' index_no = Inr raw \<and>
     df_get logs_df col index_no = Inr col_value \<and>
     labeler logs_df index_no pre = Inr before \<and>
     labeler logs_df index_no (pre @ [col]) = Inr after \<and>
     length before = length final \<and> length after = length final \<and>
     after = (if col_value \<in> skip_values then before
              else case first_free (str_split raw) (str_split (punctuation_spliter col_value)) before of
                     None \<Rightarrow> before
                   | Some ind \<Rightarrow>
                       write_span before ind col (length (str_split (punctuation_spliter col_value)))) \<and>
     (\<forall>p<length final. before ! p \<noteq> ''O'' \<longrightarrow> after ! p = before ! p) \<and>
     (\<forall>p<length final. after ! p \<noteq> ''O'' \<longrightarrow> final ! p = after ! p) \<and>
     (\<forall>p<length final. final ! p = ''O'' \<or>
        (\<exists>c \<in> set (pre @ col # post). (final ! p = ''B-'' @ c \<or> final ! p = ''I-'' @ c) \<and>
           (\<forall>c'. final ! p = ''B-'' @ c' \<or> final ! p = ''I-'' @ c' \<longrightarrow> c' = c))) \<and>
     (col \<notin> set pre \<and> col \<notin> set post \<longrightarrow>
        (\<forall>p q. p < length final \<and> q < length final \<and>
               final ! p = ''B-'' @ col \<and> final ! q = ''B-'' @ col \<longrightarrow> p = q))"
proof -
  from run obtain raw where raw: "df_get logs_df ''raw_preprocess'' index_no = Inr raw"
    and lc: "label_cols logs_df index_no (str_split raw) (pre @ col # post)
               (replicate (length (str_split raw)) ''O'') = Inr final"
    by (rule labeler_Inr)
  let ?rs = "str_split raw"
  let ?init = "replicate (length ?rs) ''O''"
  from lc obtain before where b: "label_cols logs_df index_no ?rs pre ?init = Inr before"
    and lc2: "label_cols logs_df index_no ?rs ([col] @ post) before = Inr final"
    by (auto simp: label_cols_append split: sum.splits)
  from lc2 obtain after where a: "label_cols logs_df index_no ?rs [col] before = Inr after"
    and lc3: "label_cols logs_df index_no ?rs post after = Inr final"
    unfolding label_cols_append by (auto split: sum.splits)
  from a obtain col_value where v: "df_get logs_df col index_no = Inr col_value"
    and aeq: "after = (if col_value \<in> skip_values then before
              else label_col ?rs (str_split (punctuation_spliter col_value)) col before)"
    by (rule label_cols_single)
  have lb: "labeler logs_df index_no pre = Inr before" using raw b by (simp add: labeler_def)
  have la: "labeler logs_df index_no (pre @ [col]) = Inr after"
    using raw b a by (simp add: labeler_def label_cols_append)
  have len_b: "length before = length ?init" by (rule length_label_cols [OF b])
  have len_a: "length after = length before" by (rule length_label_cols [OF a])
  have len_f: "length final = length after" by (rule length_label_cols [OF lc3])
  have keep_a: "after ! p = before ! p" if "p < length final" "before ! p \<noteq> ''O''" for p
    using label_cols_labels [OF a, of p] that len_a len_f by auto
  have keep_f: "final ! p = after ! p" if "p < length final" "after ! p \<noteq> ''O''" for p
    using label_cols_labels [OF lc3, of p] that len_f by auto
  have origin: "final ! p = ''O'' \<or>
        (\<exists>c \<in> set (pre @ col # post). (final ! p = ''B-'' @ c \<or> final ! p = ''I-'' @ c) \<and>
           (\<forall>c'. final ! p = ''B-'' @ c' \<or> final ! p = ''I-'' @ c' \<longrightarrow> c' = c))"
    if "p < length final" for p
  proof -
    have "p < length ?init" using that len_f len_a len_b by simp
    from label_cols_labels [OF lc this]
    have "final ! p = ''O'' \<or>
      (\<exists>c \<in> set (pre @ col # post). final ! p = ''B-'' @ c \<or> final ! p = ''I-'' @ c)"
      using \<open>p < length ?init\<close> by auto
    then show ?thesis by auto
  qed
  have once: "p = q" if fresh: "col \<notin> set pre" "col \<notin> set post"
    and pq: "p < length final" "q < length final" "final ! p = ''B-'' @ col" "final ! q = ''B-'' @ col"
    for p q
  proof -
    have at: "first_free ?rs (str_split (punctuation_spliter col_value)) before = Some r"
      if r: "r < length final" "final ! r = ''B-'' @ col" for r
    proof -
      have r0: "r < length ?init" "r < length before" "r < length after"
        using r(1) len_f len_a len_b by simp_all
      have "after ! r = ''B-'' @ col"
        using label_cols_labels [OF lc3 r0(3)] r(2) fresh(2) by auto
      moreover have "before ! r \<noteq> ''B-'' @ col"
        using label_cols_labels [OF b r0(1)] r0(1) fresh(1) by auto
      ultimately show ?thesis
        using aeq label_col_B [OF _ _ r0(2), of ?rs "str_split (punctuation_spliter col_value)" col]
        by (auto split: if_splits)
    qed
    from at [OF pq(1,3)] at [OF pq(2,4)] show ?thesis by simp
  qed
  show ?thesis
  proof (intro exI conjI)
    show "df_get logs_df ''raw_preprocess'' index_no = Inr raw" by (rule raw)
    show "df_get logs_df col index_no = Inr col_value" by (rule v)
    show "labeler logs_df index_no pre = Inr before" by (rule lb)
    show "labeler logs_df index_no (pre @ [col]) = Inr after" by (rule la)
    show "length before = length final" using len_a len_f by simp
    show "length after = length final" using len_f by simp
    show "after = (if col_value \<in> skip_values then before
              else case first_free (str_split raw) (str_split (punctuation_spliter col_value)) before of
                     None \<Rightarrow> before
                   | Some ind \<Rightarrow>
                       write_span before ind col (length (str_split (punctuation_spliter col_value))))"
      using aeq by (simp add: label_col_def)
    show "\<forall>p<length final. before ! p \<noteq> ''O'' \<longrightarrow> after ! p = before ! p"
      using keep_a by blast
    show "\<forall>p<length final. after ! p \<noteq> ''O'' \<longrightarrow> final ! p = after ! p"
      using keep_f by blast
    show "\<forall>p<length final. final ! p = ''O'' \<or>
        (\<exists>c \<in> set (pre @ col # post). (final ! p = ''B-'' @ c \<or> final ! p = ''I-'' @ c) \<and>
           (\<forall>c'. final ! p = ''B-'' @ c' \<or> final ! p = ''I-'' @ c' \<longrightarrow> c' = c))"
      using origin by blast
    show "col \<notin> set pre \<and> col \<notin> set post \<longrightarrow>
        (\<forall>p q. p < length final \<and> q < length final \<and>
               final ! p = ''B-'' @ col \<and> final ! q = ''B-'' @ col \<longrightarrow> p = q)"
      using once by blast
  qed
qed

theorem labeler_one_span_per_column_witness:
  "labeler example_logs 0 ([] @ ''host'' # [''kind'']) = Inr [''O'', ''O'', ''B-host'', ''I-host'', ''I-host'', ''O''] \<and>
   (\<exists>before after.
      labeler example_logs 0 [] = Inr before \<and>
      labeler example_logs 0 ([] @ [''host'']) = Inr after \<and>
      length before = length [''O'', ''O'', ''B-host'', ''I-host'', ''I-host'', ''O''] \<and> length after = length [''O'', ''O'', ''B-host'', ''I-host'', ''I-host'', ''O''])"
proof -
  have run: "labeler example_logs 0 ([] @ ''host'' # [''kind'']) = Inr [''O'', ''O'', ''B-host'', ''I-host'', ''I-host'', ''O'']"
    by code_simp
  from labeler_one_span_per_column [OF run]
  have "\<exists>before after.
      labeler example_logs 0 [] = Inr before \<and>
      labeler example_logs 0 ([] @ [''host'']) = Inr after \<and>
      length before = length [''O'', ''O'', ''B-host'', ''I-host'', ''I-host'', ''O''] \<and> length after = length [''O'', ''O'', ''B-host'', ''I-host'', ''I-host'', ''O'']"
    by blast
  with run show ?thesis by (rule conjI)
qed

section \<open>The label dictionary\<close>

lemma labeler_labels:
  assumes run: "labeler logs_df index_no cols = Inr label_list" and l: "l \<in> set label_list"
  shows "l = ''O'' \<or> (\<exists>c \<in> set cols. l = ''B-'' @ c \<or> l = ''I-'' @ c)"
proof -
  from run obtain raw where raw: "df_get logs_df ''raw_preprocess'' index_no = Inr raw"
    and lc: "label_cols logs_df index_no (str_split raw) cols
           (replicate (length (str_split raw)) ''O'') = Inr label_list"
    by (rule labeler_Inr)
  from l obtain p where p: "p < length label_list" "label_list ! p = l"
    by (auto simp: in_set_conv_nth)
  have "p < length (replicate (length (str_split raw)) ''O'')"
    using p(1) length_label_cols [OF lc] by simp
  from label_cols_labels [OF lc this] this p(2) show ?thesis by auto
qed

lemma update_fresh: "k \<notin> fst ` set al \<Longrightarrow> AList.update k v al = al @ [(k, v)]"
  by (induction al) auto

lemma fold_enumerate_fresh:
  "distinct ts \<Longrightarrow> set ts \<inter> fst ` set d = {} \<Longrightarrow>
   fold (\<lambda>(i, t) d. AList.update t (int i) d) (enumerate n ts) d =
     d @ map (\<lambda>(i, t). (t, int i)) (enumerate n ts)"
proof (induction ts arbitrary: n d)
  case Nil
  then show ?case by simp
next
  case (Cons t ts)
  have fresh: "t \<notin> fst ` set d" using Cons.prems by auto
  have "set ts \<inter> fst ` set (d @ [(t, int n)]) = {}" using Cons.prems by auto
  with Cons.IH [of "d @ [(t, int n)]" "Suc n"] Cons.prems(1) fresh
  show ?case by (simp add: update_fresh)
qed

lemma pairs_fst: "map fst (map (\<lambda>(i, t). (t, int i)) (enumerate n ts)) = ts"
proof -
  have h: "map fst (map (\<lambda>(i, t). (t, int i)) xs) = map snd xs" for xs
    by (induction xs) auto
  show ?thesis by (simp only: h map_snd_enumerate)
qed

lemma pairs_snd:
  "map snd (map (\<lambda>(i, t). (t, int i)) (enumerate n ts)) = map int [n..<n + length ts]"
proof -
  have h: "map snd (map (\<lambda>(i, t). (t, int i)) xs) = map int (map fst xs)" for xs
    by (induction xs) auto
  show ?thesis by (simp only: h map_fst_enumerate)
qed

lemma label2id_eq:
  assumes "distinct label_values" "''[PAD]'' \<notin> set label_values" "''X'' \<notin> set label_values"
  shows "label2id label_values =
     map (\<lambda>(i, t). (t, int i)) (enumerate 0 (''[PAD]'' # label_values)) @ [(''X'', - 100)]"
proof -
  let ?ts = "''[PAD]'' # label_values"
  have d: "distinct ?ts" using assms by simp
  have body: "fold (\<lambda>(i, t) d. AList.update t (int i) d) (enumerate 0 ?ts) [] =
      map (\<lambda>(i, t). (t, int i)) (enumerate 0 ?ts)"
    using fold_enumerate_fresh [OF d, of "[]" 0] by simp
  have keys: "fst ` set (map (\<lambda>(i, t). (t, int i)) (enumerate 0 ?ts)) = set ?ts"
    using pairs_fst [of 0 ?ts] by (metis set_map)
  have nx: "''X'' \<notin> set ?ts" using assms by simp
  have "''X'' \<notin> fst ` set (map (\<lambda>(i, t). (t, int i)) (enumerate 0 ?ts))"
    unfolding keys by (rule nx)
  then show ?thesis
    unfolding label2id_def body by (rule update_fresh)
qed

lemma label2id_keys_values:
  assumes "distinct label_values" "''[PAD]'' \<notin> set label_values" "''X'' \<notin> set label_values"
  shows "map fst (label2id label_values) = ''[PAD]'' # label_values @ [''X'']"
    and "map snd (label2id label_values) = map int [0..<Suc (length label_values)] @ [- 100]"
proof -
  let ?ts = "''[PAD]'' # label_values"
  have "map fst (label2id label_values) = ?ts @ [''X'']"
    by (simp only: label2id_eq [OF assms] map_append pairs_fst) simp
  then show "map fst (label2id label_values) = ''[PAD]'' # label_values @ [''X'']" by simp
  have "map snd (label2id label_values) = map int [0..<0 + length ?ts] @ [- 100]"
    by (simp only: label2id_eq [OF assms] map_append pairs_snd) simp
  then show "map snd (label2id label_values) = map int [0..<Suc (length label_values)] @ [- 100]"
    by simp
qed

lemma distinct_label2id:
  assumes "distinct label_values" "''[PAD]'' \<notin> set label_values" "''X'' \<notin> set label_values"
  shows "distinct (map fst (label2id label_values))" "distinct (map snd (label2id label_values))"
proof -
  show "distinct (map fst (label2id label_values))"
    unfolding label2id_keys_values(1) [OF assms] using assms by simp
  have "distinct (map int [0..<Suc (length label_values)])"
    by (simp only: distinct_map distinct_upt) (simp add: inj_on_def)
  moreover have "- 100 \<notin> set (map int [0..<Suc (length label_values)])" by auto
  ultimately show "distinct (map snd (label2id label_values))"
    unfolding label2id_keys_values(2) [OF assms] by simp
qed

lemma fold_update_other:
  "v \<notin> snd ` set xs \<Longrightarrow>
   map_of (fold (\<lambda>(key, v) d. AList.update v key d) xs d) v = map_of d v"
  by (induction xs arbitrary: d) (auto simp: update_conv')

lemma id2label_lookup:
  "distinct (map snd xs) \<Longrightarrow> (k, v) \<in> set xs \<Longrightarrow>
   map_of (fold (\<lambda>(key, v) d. AList.update v key d) xs d) v = Some k"
proof (induction xs arbitrary: d)
  case Nil
  then show ?case by simp
next
  case (Cons x xs)
  obtain k0 v0 where x: "x = (k0, v0)" by (cases x)
  show ?case
  proof (cases "(k, v) = x")
    case True
    then have "v \<notin> snd ` set xs" using Cons.prems(1) x by auto
    then show ?thesis using True x by (simp add: fold_update_other update_conv')
  next
    case False
    then show ?thesis using Cons x by auto
  qed
qed

lemma id2label_keys:
  "fst ` set (fold (\<lambda>(key, v) d. AList.update v key d) xs d) = fst ` set d \<union> snd ` set xs"
  by (induction xs arbitrary: d) (simp_all add: dom_update case_prod_beta)

lemma label2id_dom: "fst ` set (label2id label_values) = {''[PAD]'', ''X''} \<union> set label_values"
proof -
  have "fst ` set (fold (\<lambda>(i, t) d. AList.update t (int i) d) (enumerate n ts) d) = fst ` set d \<union> set ts"
    for n ts and d :: "(string \<times> int) list"
    by (induction ts arbitrary: n d) (auto simp: dom_update)
  then show ?thesis by (auto simp: label2id_def dom_update)
qed

text \<open>
  Claim C6. Let the training labels be lists that \<open>labeler\<close> returned and \<open>label_values\<close> any
  list without repetition of the labels that occur in them. Then \<open>label2id\<close> maps \<open>'[PAD]'\<close>
  to 0, \<open>'X'\<close> to -100 and every label of the training labels to a positive integer; its
  keys are these and no other; two keys with the same id are equal; and \<open>id2label\<close> is its
  inverse: \<open>id2label[label2id[t]] = t\<close> for every key \<open>t\<close>, and every entry of \<open>id2label\<close> comes
  from an entry of \<open>label2id\<close>.
\<close>

theorem label2id_roundtrip:
  assumes from_labeler: "\<forall>l \<in> set labels. \<exists>index_no. labeler logs_df index_no cols = Inr l"
    and distinct_values: "distinct label_values"
    and set_values: "set label_values = set (concat labels)"
  shows "map_of (label2id label_values) ''[PAD]'' = Some 0 \<and>
     map_of (label2id label_values) ''X'' = Some (- 100) \<and>
     (\<forall>t \<in> set (concat labels). \<exists>i. 0 < i \<and> map_of (label2id label_values) t = Some i) \<and>
     fst ` set (label2id label_values) = {''[PAD]'', ''X''} \<union> set (concat labels) \<and>
     (\<forall>t t' i. map_of (label2id label_values) t = Some i \<and>
                map_of (label2id label_values) t' = Some i \<longrightarrow> t = t') \<and>
     (\<forall>t i. map_of (label2id label_values) t = Some i \<longrightarrow>
             map_of (id2label (label2id label_values)) i = Some t) \<and>
     (\<forall>i t. map_of (id2label (label2id label_values)) i = Some t \<longrightarrow>
             map_of (label2id label_values) t = Some i)"
proof -
  let ?d = "label2id label_values"
  have bio: "l = ''O'' \<or> (\<exists>c. l = ''B-'' @ c \<or> l = ''I-'' @ c)" if "l \<in> set label_values" for l
  proof -
    from that set_values obtain ls where "ls \<in> set labels" "l \<in> set ls" by auto
    with from_labeler obtain index_no where "labeler logs_df index_no cols = Inr ls" by auto
    from labeler_labels [OF this \<open>l \<in> set ls\<close>] show ?thesis by auto
  qed
  have noPAD: "''[PAD]'' \<notin> set label_values" using bio by fastforce
  have noX: "''X'' \<notin> set label_values" using bio by fastforce
  note eq = label2id_eq [OF distinct_values noPAD noX]
  note dk = distinct_label2id(1) [OF distinct_values noPAD noX]
  note dv = distinct_label2id(2) [OF distinct_values noPAD noX]
  have look: "map_of ?d t = Some i \<longleftrightarrow> (t, i) \<in> set ?d" for t i
    using dk by (metis map_of_SomeD map_of_is_SomeI)
  have pad: "(''[PAD]'', 0) \<in> set ?d" unfolding eq by simp
  have x: "(''X'', - 100) \<in> set ?d" unfolding eq by simp
  have pos: "\<exists>i. 0 < i \<and> (t, i) \<in> set ?d" if "t \<in> set label_values" for t
  proof -
    from that obtain k where k: "k < length label_values" "label_values ! k = t"
      by (auto simp: in_set_conv_nth)
    have "(Suc k, t) \<in> set (enumerate 0 (''[PAD]'' # label_values))"
      using k by (simp add: in_set_enumerate_eq)
    then have "(t, int (Suc k)) \<in> set ?d" unfolding eq by force
    then show ?thesis by (intro exI [of _ "int (Suc k)"]) simp
  qed
  have inj: "t = t'" if "(t, i) \<in> set ?d" "(t', i) \<in> set ?d" for t t' i
    using that dv by (metis distinct_map inj_on_def fst_conv snd_conv)
  have there: "map_of (id2label ?d) i = Some t" if "(t, i) \<in> set ?d" for t i
    unfolding id2label_def using dv that by (rule id2label_lookup)
  have inverse: "(t, i) \<in> set ?d" if "map_of (id2label ?d) i = Some t" for t i
  proof -
    from that have "i \<in> fst ` set (id2label ?d)" by (metis map_of_eq_None_iff option.distinct(1))
    then have "i \<in> snd ` set ?d" by (simp add: id2label_def id2label_keys)
    then obtain t' where t': "(t', i) \<in> set ?d" by force
    from there [OF t'] that have "t' = t" by simp
    with t' show ?thesis by simp
  qed
  show ?thesis
  proof (intro conjI)
    show "map_of ?d ''[PAD]'' = Some 0" using pad by (simp add: look)
    show "map_of ?d ''X'' = Some (- 100)" using x by (simp add: look)
    show "\<forall>t \<in> set (concat labels). \<exists>i. 0 < i \<and> map_of ?d t = Some i"
      using pos set_values by (simp add: look)
    show "fst ` set ?d = {''[PAD]'', ''X''} \<union> set (concat labels)"
      using set_values by (simp add: label2id_dom)
    show "\<forall>t t' i. map_of ?d t = Some i \<and> map_of ?d t' = Some i \<longrightarrow> t = t'"
      using inj by (simp add: look) blast
    show "\<forall>t i. map_of ?d t = Some i \<longrightarrow> map_of (id2label ?d) i = Some t"
      using there by (simp add: look)
    show "\<forall>i t. map_of (id2label ?d) i = Some t \<longrightarrow> map_of ?d t = Some i"
      using inverse by (simp add: look)
  qed
qed

theorem label2id_roundtrip_witness:
  "labeler example_logs 0 [''host'', ''kind''] = Inr [''O'', ''O'', ''B-host'', ''I-host'', ''I-host'', ''O''] \<and>
   map_of (label2id [''O'', ''B-host'', ''I-host'']) ''[PAD]'' = Some 0 \<and>
   map_of (label2id [''O'', ''B-host'', ''I-host'']) ''X'' = Some (- 100) \<and>
   fst ` set (label2id [''O'', ''B-host'', ''I-host'']) = {''[PAD]'', ''X''} \<union> set (concat [[''O'', ''O'', ''B-host'', ''I-host'', ''I-host'', ''O'']])"
proof -
  have run: "labeler example_logs 0 [''host'', ''kind''] = Inr [''O'', ''O'', ''B-host'', ''I-host'', ''I-host'', ''O'']"
    by code_simp
  have a: "\<forall>l \<in> set [[''O'', ''O'', ''B-host'', ''I-host'', ''I-host'', ''O'']]. \<exists>index_no. labeler example_logs index_no [''host'', ''kind''] = Inr l"
    using run by auto
  have d: "distinct [''O'', ''B-host'', ''I-host'']" by simp
  have s: "set [''O'', ''B-host'', ''I-host''] = set (concat [[''O'', ''O'', ''B-host'', ''I-host'', ''I-host'', ''O'']])" by auto
  from label2id_roundtrip [OF a d s]
  have "map_of (label2id [''O'', ''B-host'', ''I-host'']) ''[PAD]'' = Some 0 \<and>
   map_of (label2id [''O'', ''B-host'', ''I-host'']) ''X'' = Some (- 100) \<and>
   fst ` set (label2id [''O'', ''B-host'', ''I-host'']) = {''[PAD]'', ''X''} \<union> set (concat [[''O'', ''O'', ''B-host'', ''I-host'', ''I-host'', ''O'']])"
    by blast
  with run show ?thesis by (rule conjI)
qed

section \<open>Subword labels and padding\<close>

lemma tag_loop_eq:
  "\<forall>(i, tag) \<in> set es. i < length subword_counts \<Longrightarrow>
   tag_loop subword_counts es temp_tags =
     Inr (temp_tags @ concat (map (\<lambda>(i, tag). tag # replicate (nat (subword_counts ! i)) ''X'') es))"
  by (induction es arbitrary: temp_tags) auto

lemma enumerate_with_counts:
  assumes "length tags \<le> length subword_counts"
  shows "map (\<lambda>(i, tag). tag # replicate (nat (subword_counts ! i)) ''X'') (enumerate 0 tags) =
         map (\<lambda>(tag, c). tag # replicate (nat c) ''X'') (zip tags subword_counts)"
  by (rule nth_equalityI) (use assms in \<open>simp_all add: nth_enumerate_eq\<close>)

lemma tag_loop_with_subwords:
  assumes "length tags \<le> length subword_counts"
  shows "tag_loop subword_counts (enumerate 0 tags) [] = Inr (with_subwords tags subword_counts)"
proof -
  have "\<forall>(i, tag) \<in> set (enumerate 0 tags). i < length subword_counts"
    using assms by (auto simp: in_set_enumerate_eq)
  from tag_loop_eq [OF this, of "[]"] show ?thesis
    by (simp add: with_subwords_def enumerate_with_counts [OF assms])
qed

lemma length_with_subwords:
  "length tags = length subword_counts \<Longrightarrow>
   length (with_subwords tags subword_counts) = length tags + sum_list (map nat subword_counts)"
  unfolding with_subwords_def
  by (induction tags subword_counts rule: list_induct2) simp_all

lemma sum_list_nat:
  "\<forall>c \<in> set cs. 0 \<le> c \<Longrightarrow> int (sum_list (map nat cs)) = sum_list cs"
  by (induction cs) simp_all

lemma filter_with_subwords:
  "length tags = length subword_counts \<Longrightarrow> ''X'' \<notin> set tags \<Longrightarrow>
   filter (\<lambda>l. l \<noteq> ''X'') (with_subwords tags subword_counts) = tags"
  unfolding with_subwords_def
  by (induction tags subword_counts rule: list_induct2) auto

lemma log_loop_eq:
  "\<forall>(log, tags) \<in> set pairs. length tags \<le> length (tokenizer (str_split log)) \<Longrightarrow>
   log_loop tokenizer pairs subword_labels =
     Inr (subword_labels @ map (\<lambda>(log, tags). with_subwords tags (tokenizer (str_split log))) pairs)"
  by (induction pairs arbitrary: subword_labels) (auto simp: tag_loop_with_subwords)

text \<open>
  Claim C7, amended. Let there be as many logs as tag lists and, for every log, one tag and
  one reported count for each of its words. Then \<open>subword_labeler\<close> returns one sequence for
  each log: every tag in order, each followed by as many \<open>'X'\<close> as the count reported for its
  word (none for a reported value below zero), so that the length of the sequence is the
  number of tags plus the number of \<open>'X'\<close> appended. For a log whose counts are not negative
  this length is the number of tags plus the sum of the counts; and for a log none of whose
  tags is \<open>'X'\<close> the entries other than \<open>'X'\<close> are the tags.
\<close>

theorem subword_labeler_tags:
  assumes len: "length log_list = length label_list"
    and per_word: "\<forall>k<length log_list.
        length (label_list ! k) = length (str_split (log_list ! k)) \<and>
        length (tokenizer (str_split (log_list ! k))) = length (str_split (log_list ! k))"
  shows "\<exists>subword_labels.
     subword_labeler tokenizer log_list label_list = Inr subword_labels \<and>
     length subword_labels = length log_list \<and>
     (\<forall>k<length log_list.
        subword_labels ! k = with_subwords (label_list ! k) (tokenizer (str_split (log_list ! k))) \<and>
        length (subword_labels ! k) =
          length (label_list ! k) + sum_list (map nat (tokenizer (str_split (log_list ! k)))) \<and>
        ((\<forall>c \<in> set (tokenizer (str_split (log_list ! k))). 0 \<le> c) \<longrightarrow>
           int (length (subword_labels ! k)) =
             int (length (label_list ! k)) + sum_list (tokenizer (str_split (log_list ! k)))) \<and>
        (''X'' \<notin> set (label_list ! k) \<longrightarrow>
           filter (\<lambda>l. l \<noteq> ''X'') (subword_labels ! k) = label_list ! k))"
proof -
  let ?out = "map (\<lambda>(log, tags). with_subwords tags (tokenizer (str_split log))) (zip log_list label_list)"
  have "\<forall>(log, tags) \<in> set (zip log_list label_list). length tags \<le> length (tokenizer (str_split log))"
    using per_word len by (auto simp: in_set_zip)
  from log_loop_eq [OF this, of "[]"]
  have run: "subword_labeler tokenizer log_list label_list = Inr ?out"
    by (simp add: subword_labeler_def)
  have nth: "?out ! k = with_subwords (label_list ! k) (tokenizer (str_split (log_list ! k)))"
    if "k < length log_list" for k
    using that len by simp
  have each: "?out ! k = with_subwords (label_list ! k) (tokenizer (str_split (log_list ! k))) \<and>
        length (?out ! k) =
          length (label_list ! k) + sum_list (map nat (tokenizer (str_split (log_list ! k)))) \<and>
        ((\<forall>c \<in> set (tokenizer (str_split (log_list ! k))). 0 \<le> c) \<longrightarrow>
           int (length (?out ! k)) =
             int (length (label_list ! k)) + sum_list (tokenizer (str_split (log_list ! k)))) \<and>
        (''X'' \<notin> set (label_list ! k) \<longrightarrow>
           filter (\<lambda>l. l \<noteq> ''X'') (?out ! k) = label_list ! k)"
    if k: "k < length log_list" for k
  proof -
    let ?tags = "label_list ! k" and ?counts = "tokenizer (str_split (log_list ! k))"
    have l: "length ?tags = length ?counts"
      using per_word k by simp
    have n: "length (with_subwords ?tags ?counts) = length ?tags + sum_list (map nat ?counts)"
      by (rule length_with_subwords [OF l])
    have s: "int (length (with_subwords ?tags ?counts)) = int (length ?tags) + sum_list ?counts"
      if c: "\<forall>c \<in> set ?counts. 0 \<le> c"
      using n sum_list_nat [OF c] by simp
    have f: "filter (\<lambda>l. l \<noteq> ''X'') (with_subwords ?tags ?counts) = ?tags"
      if x: "''X'' \<notin> set ?tags"
      by (rule filter_with_subwords [OF l x])
    show ?thesis
      unfolding nth [OF k] using n s f by blast
  qed
  show ?thesis
  proof (intro exI conjI)
    show "subword_labeler tokenizer log_list label_list = Inr ?out" by (rule run)
    show "length ?out = length log_list" using len by simp
    show "\<forall>k<length log_list.
        ?out ! k = with_subwords (label_list ! k) (tokenizer (str_split (log_list ! k))) \<and>
        length (?out ! k) =
          length (label_list ! k) + sum_list (map nat (tokenizer (str_split (log_list ! k)))) \<and>
        ((\<forall>c \<in> set (tokenizer (str_split (log_list ! k))). 0 \<le> c) \<longrightarrow>
           int (length (?out ! k)) =
             int (length (label_list ! k)) + sum_list (tokenizer (str_split (log_list ! k)))) \<and>
        (''X'' \<notin> set (label_list ! k) \<longrightarrow>
           filter (\<lambda>l. l \<noteq> ''X'') (?out ! k) = label_list ! k)"
      using each by blast
  qed
qed

theorem subword_labeler_tags_witness:
  "subword_labeler (map (int \<circ> length)) [''ab c''] [[''B-x'', ''O'']] = Inr [[''B-x'', ''X'', ''X'', ''O'', ''X'']] \<and>
   (\<exists>subword_labels.
      subword_labeler (map (int \<circ> length)) [''ab c''] [[''B-x'', ''O'']] = Inr subword_labels \<and>
      length subword_labels = length [''ab c''] \<and>
      subword_labels ! 0 =
        with_subwords ([[''B-x'', ''O'']] ! 0) ((map (int \<circ> length)) (str_split ([''ab c''] ! 0))) \<and>
      int (length (subword_labels ! 0)) =
        int (length ([[''B-x'', ''O'']] ! 0)) +
        sum_list ((map (int \<circ> length)) (str_split ([''ab c''] ! 0))) \<and>
      filter (\<lambda>l. l \<noteq> ''X'') (subword_labels ! 0) = [[''B-x'', ''O'']] ! 0)"
proof -
  have run: "subword_labeler (map (int \<circ> length)) [''ab c''] [[''B-x'', ''O'']] =
      Inr [[''B-x'', ''X'', ''X'', ''O'', ''X'']]"
    by code_simp
  have sp: "str_split ''ab c'' = [''ab'', ''c'']" by code_simp
  have len: "length [''ab c''] = length [[''B-x'', ''O'']]" by simp
  have per_word: "\<forall>k<length [''ab c''].
        length ([[''B-x'', ''O'']] ! k) = length (str_split ([''ab c''] ! k)) \<and>
        length ((map (int \<circ> length)) (str_split ([''ab c''] ! k))) = length (str_split ([''ab c''] ! k))"
    by (simp add: sp)
  have counts: "\<forall>c \<in> set ((map (int \<circ> length)) (str_split ([''ab c''] ! 0))). 0 \<le> c"
    by (simp add: sp)
  have noX: "''X'' \<notin> set ([[''B-x'', ''O'']] ! 0)"
    by simp
  have z: "0 < length [''ab c'']" by simp
  from subword_labeler_tags [OF len per_word] z counts noX
  have "\<exists>subword_labels.
      subword_labeler (map (int \<circ> length)) [''ab c''] [[''B-x'', ''O'']] = Inr subword_labels \<and>
      length subword_labels = length [''ab c''] \<and>
      subword_labels ! 0 =
        with_subwords ([[''B-x'', ''O'']] ! 0) ((map (int \<circ> length)) (str_split ([''ab c''] ! 0))) \<and>
      int (length (subword_labels ! 0)) =
        int (length ([[''B-x'', ''O'']] ! 0)) +
        sum_list ((map (int \<circ> length)) (str_split ([''ab c''] ! 0))) \<and>
      filter (\<lambda>l. l \<noteq> ''X'') (subword_labels ! 0) = [[''B-x'', ''O'']] ! 0"
    by blast
  with run show ?thesis by (rule conjI)
qed

text \<open>
  With a tag \<open>'X'\<close> the entries other than \<open>'X'\<close> are not the tags: one log of one word, one
  tag for it, one count reported. The sequence is returned all the same, the tag followed
  by the reported number of \<open>'X'\<close>.
\<close>

theorem subword_labeler_X_tag_counterexample:
  "length [''a''] = length [[''X'']] \<and>
   length ([[''X'']] ! 0) = length (str_split ([''a''] ! 0)) \<and>
   length ((map (int \<circ> length)) (str_split ([''a''] ! 0))) = length (str_split ([''a''] ! 0)) \<and>
   subword_labeler (map (int \<circ> length)) [''a''] [[''X'']] = Inr [[''X'', ''X'']] \<and>
   filter (\<lambda>l. l \<noteq> ''X'') [''X'', ''X''] \<noteq> [[''X'']] ! 0"
  by code_simp

lemma tag_loop_elements:
  "tag_loop subword_counts es temp_tags = Inr out \<Longrightarrow>
   set out \<subseteq> set temp_tags \<union> snd ` set es \<union> {''X''}"
proof (induction es arbitrary: temp_tags)
  case Nil
  then show ?case by auto
next
  case (Cons e es)
  obtain i tag where e: "e = (i, tag)" by (cases e)
  from Cons.prems e have "tag_loop subword_counts es
      (temp_tags @ [tag] @ replicate (nat (subword_counts ! i)) ''X'') = Inr out"
    by (simp split: if_splits)
  from Cons.IH [OF this] show ?case using e by auto
qed

lemma log_loop_elements:
  "log_loop tokenizer pairs subword_labels = Inr out \<Longrightarrow> row \<in> set out \<Longrightarrow>
   row \<in> set subword_labels \<or> (\<exists>(log, tags) \<in> set pairs. set row \<subseteq> set tags \<union> {''X''})"
proof (induction pairs arbitrary: subword_labels)
  case Nil
  then show ?case by auto
next
  case (Cons pr pairs)
  obtain log tags where pr: "pr = (log, tags)" by (cases pr)
  from Cons.prems(1) pr obtain temp_tags where
    t: "tag_loop (tokenizer (str_split log)) (enumerate 0 tags) [] = Inr temp_tags"
    and rest: "log_loop tokenizer pairs (subword_labels @ [temp_tags]) = Inr out"
    by (auto split: sum.splits)
  from tag_loop_elements [OF t] have sub: "set temp_tags \<subseteq> set tags \<union> {''X''}"
    by (auto simp: in_set_enumerate_eq)
  from Cons.IH [OF rest Cons.prems(2)] show ?case using sub pr by auto
qed

lemma subword_labeler_elements:
  assumes "subword_labeler tokenizer log_list label_list = Inr subword_labels"
    and "row \<in> set subword_labels"
  shows "set row \<subseteq> set (concat label_list) \<union> {''X''}"
proof -
  from log_loop_elements [OF assms(1) [unfolded subword_labeler_def] assms(2)]
  obtain log tags where "(log, tags) \<in> set (zip log_list label_list)" "set row \<subseteq> set tags \<union> {''X''}"
    by auto
  moreover then have "tags \<in> set label_list" by (auto dest: set_zip_rightD)
  ultimately show ?thesis by auto
qed

lemma length_pad_take: "length (pad (take 512 x) content 512) = 512"
  by (simp add: pad_def)

text \<open>
  Claim C10. \<open>pad\<close> returns \<open>l\<close> followed by \<open>width - len(l)\<close> copies of \<open>content\<close> when \<open>l\<close> is
  shorter than \<open>width\<close>, and \<open>l\<close> otherwise; the elements of \<open>l\<close> come first, unchanged. Every
  element of \<open>padded_labels\<close> and every row of \<open>int_labels\<close> has length 512; and when the
  subword labels come from \<open>subword_labeler\<close> on the training labels and the dictionary from
  the labels that occur in these, every entry of \<open>int_labels\<close> is an integer, not \<open>None\<close>.
\<close>

theorem padded_labels_length:
  "pad l content width =
     (if int (length l) < width then l @ replicate (nat (width - int (length l))) content else l) \<and>
   take (length l) (pad l content width) = l \<and>
   (\<forall>x \<in> set (padded_labels subword_labels). length x = 512) \<and>
   (\<forall>row \<in> set (int_labels l2i (padded_labels subword_labels)). length row = 512) \<and>
   (set label_values = set (concat labels) \<and>
    subword_labeler tokenizer log_list labels = Inr subword_labels \<longrightarrow>
      (\<forall>row \<in> set (int_labels (label2id label_values) (padded_labels subword_labels)).
         length row = 512 \<and> (\<forall>v \<in> set row. \<exists>i. v = Some i)))"
proof (intro conjI impI ballI)
  show "pad l content width =
     (if int (length l) < width then l @ replicate (nat (width - int (length l))) content else l)"
    by (simp add: pad_def)
  show "take (length l) (pad l content width) = l" by (simp add: pad_def)
next
  fix x assume "x \<in> set (padded_labels subword_labels)"
  then show "length x = 512" by (auto simp: padded_labels_def length_pad_take)
next
  fix row assume "row \<in> set (int_labels l2i (padded_labels subword_labels))"
  then show "length row = 512" by (auto simp: int_labels_def padded_labels_def length_pad_take)
next
  fix row
  assume pipeline: "set label_values = set (concat labels) \<and>
    subword_labeler tokenizer log_list labels = Inr subword_labels"
    and row: "row \<in> set (int_labels (label2id label_values) (padded_labels subword_labels))"
  from row show "length row = 512"
    by (auto simp: int_labels_def padded_labels_def length_pad_take)
next
  fix row v
  assume pipeline: "set label_values = set (concat labels) \<and>
    subword_labeler tokenizer log_list labels = Inr subword_labels"
    and row: "row \<in> set (int_labels (label2id label_values) (padded_labels subword_labels))"
    and v: "v \<in> set row"
  from row obtain x where x: "x \<in> set subword_labels"
    and r: "row = map (\<lambda>l. map_of (label2id label_values) l) (pad (take 512 x) ''[PAD]'' 512)"
    by (auto simp: int_labels_def padded_labels_def)
  from v r obtain l where l: "l \<in> set (pad (take 512 x) ''[PAD]'' 512)"
    and vl: "v = map_of (label2id label_values) l"
    by auto
  from l have "l \<in> set x \<or> l = ''[PAD]''" by (auto simp: pad_def dest: in_set_takeD split: if_splits)
  with subword_labeler_elements [OF conjunct2 [OF pipeline] x] conjunct1 [OF pipeline]
  have "l \<in> {''[PAD]'', ''X''} \<union> set label_values" by auto
  then have "l \<in> fst ` set (label2id label_values)" by (simp only: label2id_dom)
  then have "map_of (label2id label_values) l \<noteq> None" by (simp add: map_of_eq_None_iff)
  then show "\<exists>i. v = Some i" using vl by auto
qed

theorem padded_labels_length_witness:
  "subword_labeler (map (int \<circ> length)) [''ab c''] [[''B-x'', ''O'']] = Inr [[''B-x'', ''X'', ''X'', ''O'', ''X'']] \<and>
   set [''B-x'', ''O''] = set (concat [[''B-x'', ''O'']]) \<and>
   length (hd (padded_labels [[''B-x'', ''X'', ''X'', ''O'', ''X'']])) = 512 \<and>
   length (hd (int_labels (label2id [''B-x'', ''O''])
                 (padded_labels [[''B-x'', ''X'', ''X'', ''O'', ''X'']]))) = 512"
proof -
  let ?sl = "[[''B-x'', ''X'', ''X'', ''O'', ''X'']]"
  let ?d = "label2id [''B-x'', ''O'']"
  have run: "subword_labeler (map (int \<circ> length)) [''ab c''] [[''B-x'', ''O'']] = Inr ?sl"
    by code_simp
  have s: "set [''B-x'', ''O''] = set (concat [[''B-x'', ''O'']])" by simp
  have m1: "hd (padded_labels ?sl) \<in> set (padded_labels ?sl)"
    by (simp add: padded_labels_def)
  have m2: "hd (int_labels ?d (padded_labels ?sl)) \<in> set (int_labels ?d (padded_labels ?sl))"
    by (simp add: padded_labels_def int_labels_def)
  from padded_labels_length [of "[]" "''[PAD]''" 512 ?sl ?d "[''B-x'', ''O'']" "[[''B-x'', ''O'']]"
      "(map (int \<circ> length))" "[''ab c'']"] run s m1 m2
  have "length (hd (padded_labels ?sl)) = 512 \<and>
        length (hd (int_labels ?d (padded_labels ?sl))) = 512"
    by blast
  with run s show ?thesis by blast
qed

section \<open>The evaluation loop\<close>

lemma compare_loop_result:
  assumes "compare_loop i2l labs preds i (enumerate n ms) (temp_1, temp_2) = Inr (a, b)"
  shows "a = temp_1 @ map (\<lambda>j. the (map_of i2l (labs ! i ! j)))
             (filter (\<lambda>j. map_of i2l (labs ! i ! j) \<noteq> Some ''X'' \<and> map_of i2l (labs ! i ! j) \<noteq> Some ''[PAD]'')
                [n..<n + length (takeWhile (\<lambda>m. m \<noteq> 0) ms)]) \<and>
         b = temp_2 @ map (\<lambda>j. the (map_of i2l (preds ! i ! j)))
             (filter (\<lambda>j. map_of i2l (labs ! i ! j) \<noteq> Some ''X'' \<and> map_of i2l (labs ! i ! j) \<noteq> Some ''[PAD]'')
                [n..<n + length (takeWhile (\<lambda>m. m \<noteq> 0) ms)])"
  using assms
proof (induction ms arbitrary: n temp_1 temp_2)
  case Nil
  then show ?case by simp
next
  case (Cons m ms)
  show ?case
  proof (cases "m = 0")
    case True
    then show ?thesis using Cons.prems by simp
  next
    case False
    from Cons.prems False obtain a0 where a0: "map_of i2l (labs ! i ! n) = Some a0"
      by (auto split: if_splits option.splits)
    have upt: "[n..<Suc (n + k)] = n # [Suc n..<Suc (n + k)]" for k
      by (simp add: upt_conv_Cons)
    show ?thesis
    proof (cases "a0 \<noteq> ''X'' \<and> a0 \<noteq> ''[PAD]''")
      case True
      from Cons.prems False a0 True obtain b0 where b0: "map_of i2l (preds ! i ! n) = Some b0"
        and rest: "compare_loop i2l labs preds i (enumerate (Suc n) ms) (temp_1 @ [a0], temp_2 @ [b0]) = Inr (a, b)"
        by (auto split: if_splits option.splits)
      from Cons.IH [OF rest] show ?thesis using False a0 b0 True by (simp add: upt del: upt_Suc)
    next
      case skip: False
      from Cons.prems False a0 skip
      have rest: "compare_loop i2l labs preds i (enumerate (Suc n) ms) (temp_1, temp_2) = Inr (a, b)"
        by (auto split: if_splits option.splits)
      from Cons.IH [OF rest] show ?thesis using False a0 skip by (auto simp add: upt simp del: upt_Suc)
    qed
  qed
qed

lemma compare_loop_no_X:
  assumes "compare_loop i2l labs preds i es (temp_1, temp_2) = Inr (a, b)"
  shows "\<exists>xs. a = temp_1 @ xs \<and> ''X'' \<notin> set xs \<and> ''[PAD]'' \<notin> set xs"
  using assms
proof (induction es arbitrary: temp_1 temp_2)
  case Nil
  then show ?case by simp
next
  case (Cons e es)
  obtain j m where e: "e = (j, m)" by (cases e)
  show ?case
  proof (cases "m = 0")
    case True
    then show ?thesis using Cons.prems e by simp
  next
    case False
    from Cons.prems False e obtain a0 where a0: "map_of i2l (labs ! i ! j) = Some a0"
      by (auto split: if_splits option.splits)
    show ?thesis
    proof (cases "a0 \<noteq> ''X'' \<and> a0 \<noteq> ''[PAD]''")
      case True
      from Cons.prems False a0 True e obtain b0 where
        rest: "compare_loop i2l labs preds i es (temp_1 @ [a0], temp_2 @ [b0]) = Inr (a, b)"
        by (auto split: if_splits option.splits)
      from Cons.IH [OF rest] obtain xs where "a = (temp_1 @ [a0]) @ xs" "''X'' \<notin> set xs" "''[PAD]'' \<notin> set xs"
        by auto
      then show ?thesis using True by (intro exI [of _ "a0 # xs"]) auto
    next
      case skip: False
      from Cons.prems False a0 skip e
      have rest: "compare_loop i2l labs preds i es (temp_1, temp_2) = Inr (a, b)"
        by (auto split: if_splits option.splits)
      from Cons.IH [OF rest] show ?thesis .
    qed
  qed
qed

lemma compare_loop_row_result:
  assumes "compare_loop i2l labs preds i (enumerate 0 mask_row) ([], []) = Inr (temp_1, temp_2)"
  shows "row_result i2l (mask_row, labs ! i, preds ! i) temp_1 temp_2"
  using compare_loop_result [OF assms] compare_loop_no_X [OF assms]
  by (simp add: row_result_def compared_def)

lemma row_loop_result:
  assumes "row_loop i2l labs preds (enumerate n masks) (y_true, y_pred) = Inr (y_true', y_pred')"
  shows "\<exists>ts ps. y_true' = y_true @ ts \<and> y_pred' = y_pred @ ps \<and>
     length ts = length masks \<and> length ps = length masks \<and>
     (\<forall>k<length masks. row_result i2l (masks ! k, labs ! (n + k), preds ! (n + k)) (ts ! k) (ps ! k))"
  using assms
proof (induction masks arbitrary: n y_true y_pred)
  case Nil
  then show ?case by simp
next
  case (Cons mask_row masks)
  from Cons.prems obtain temp_1 temp_2 where
    row: "compare_loop i2l labs preds n (enumerate 0 mask_row) ([], []) = Inr (temp_1, temp_2)"
    and rest: "row_loop i2l labs preds (enumerate (Suc n) masks) (y_true @ [temp_1], y_pred @ [temp_2])
        = Inr (y_true', y_pred')"
    by (auto split: sum.splits)
  from Cons.IH [OF rest] obtain ts ps where r:
    "y_true' = (y_true @ [temp_1]) @ ts" "y_pred' = (y_pred @ [temp_2]) @ ps"
    "length ts = length masks" "length ps = length masks"
    "\<forall>k<length masks. row_result i2l (masks ! k, labs ! (Suc n + k), preds ! (Suc n + k)) (ts ! k) (ps ! k)"
    by blast
  have first: "row_result i2l (mask_row, labs ! n, preds ! n) temp_1 temp_2"
    by (rule compare_loop_row_result [OF row])
  have each: "row_result i2l ((mask_row # masks) ! k, labs ! (n + k), preds ! (n + k))
      ((temp_1 # ts) ! k) ((temp_2 # ps) ! k)" if "k < length (mask_row # masks)" for k
  proof (cases k)
    case 0
    then show ?thesis using first by simp
  next
    case (Suc k')
    then show ?thesis using r(5) that by simp
  qed
  show ?case
  proof (intro exI conjI)
    show "y_true' = y_true @ (temp_1 # ts)" using r(1) by simp
    show "y_pred' = y_pred @ (temp_2 # ps)" using r(2) by simp
    show "length (temp_1 # ts) = length (mask_row # masks)" using r(3) by simp
    show "length (temp_2 # ps) = length (mask_row # masks)" using r(4) by simp
    show "\<forall>k<length (mask_row # masks).
       row_result i2l ((mask_row # masks) ! k, labs ! (n + k), preds ! (n + k))
         ((temp_1 # ts) ! k) ((temp_2 # ps) ! k)"
      using each by blast
  qed
qed

lemma batch_loop_result:
  assumes "batch_loop i2l batches (y_true, y_pred) = Inr (y_true', y_pred')"
  shows "\<exists>ts ps. y_true' = y_true @ ts \<and> y_pred' = y_pred @ ps \<and>
     length ts = length (examples batches) \<and> length ps = length (examples batches) \<and>
     (\<forall>k<length (examples batches). row_result i2l (examples batches ! k) (ts ! k) (ps ! k))"
  using assms
proof (induction batches arbitrary: y_true y_pred)
  case Nil
  then show ?case by (simp add: examples_def)
next
  case (Cons b batches)
  let ?rows = "map (\<lambda>(i, mask_row). (mask_row, label_ids b ! i, logits b ! i)) (enumerate 0 (input_mask b))"
  have ex: "examples (b # batches) = ?rows @ examples batches" by (simp add: examples_def)
  have lr: "length ?rows = length (input_mask b)" by simp
  have nr: "?rows ! k = (input_mask b ! k, label_ids b ! k, logits b ! k)" if "k < length (input_mask b)" for k
    using that by (simp add: nth_enumerate_eq)
  from Cons.prems obtain yt yp where
    rows: "row_loop i2l (label_ids b) (logits b) (enumerate 0 (input_mask b)) (y_true, y_pred) = Inr (yt, yp)"
    and rest: "batch_loop i2l batches (yt, yp) = Inr (y_true', y_pred')"
    by (auto split: sum.splits)
  from row_loop_result [OF rows] obtain ts1 ps1 where r1:
    "yt = y_true @ ts1" "yp = y_pred @ ps1"
    "length ts1 = length (input_mask b)" "length ps1 = length (input_mask b)"
    "\<forall>k<length (input_mask b). row_result i2l (input_mask b ! k, label_ids b ! (0 + k), logits b ! (0 + k))
        (ts1 ! k) (ps1 ! k)"
    by blast
  from Cons.IH [OF rest] obtain ts2 ps2 where r2:
    "y_true' = yt @ ts2" "y_pred' = yp @ ps2"
    "length ts2 = length (examples batches)" "length ps2 = length (examples batches)"
    "\<forall>k<length (examples batches). row_result i2l (examples batches ! k) (ts2 ! k) (ps2 ! k)"
    by blast
  have each: "row_result i2l (examples (b # batches) ! k) ((ts1 @ ts2) ! k) ((ps1 @ ps2) ! k)"
    if k: "k < length (examples (b # batches))" for k
  proof (cases "k < length (input_mask b)")
    case True
    then show ?thesis using r1(3,4,5) nr [OF True] lr by (simp add: ex nth_append)
  next
    case False
    then have "k - length (input_mask b) < length (examples batches)" using k lr by (simp add: ex)
    with r2(5) have "row_result i2l (examples batches ! (k - length (input_mask b)))
        (ts2 ! (k - length (input_mask b))) (ps2 ! (k - length (input_mask b)))"
      by blast
    then show ?thesis using False r1(3,4) lr by (simp add: ex nth_append)
  qed
  show ?case
  proof (intro exI conjI)
    show "y_true' = y_true @ (ts1 @ ts2)" using r1(1) r2(1) by simp
    show "y_pred' = y_pred @ (ps1 @ ps2)" using r1(2) r2(2) by simp
    show "length (ts1 @ ts2) = length (examples (b # batches))" using r1(3) r2(3) lr by (simp add: ex)
    show "length (ps1 @ ps2) = length (examples (b # batches))" using r1(4) r2(4) lr by (simp add: ex)
    show "\<forall>k<length (examples (b # batches)).
       row_result i2l (examples (b # batches) ! k) ((ts1 @ ts2) ! k) ((ps1 @ ps2) ! k)"
      using each by blast
  qed
qed

lemma compare_loop_returns:
  assumes "\<forall>j<length (takeWhile (\<lambda>m. m \<noteq> 0) ms).
             i < length labs \<and> n + j < length (labs ! i) \<and> labs ! i ! (n + j) \<in> fst ` set i2l \<and>
             i < length preds \<and> n + j < length (preds ! i) \<and> preds ! i ! (n + j) \<in> fst ` set i2l"
  shows "\<exists>a b. compare_loop i2l labs preds i (enumerate n ms) (temp_1, temp_2) = Inr (a, b)"
  using assms
proof (induction ms arbitrary: n temp_1 temp_2)
  case Nil
  then show ?case by simp
next
  case (Cons m ms)
  show ?case
  proof (cases "m = 0")
    case True
    then show ?thesis by simp
  next
    case False
    from Cons.prems False have here:
      "i < length labs" "n < length (labs ! i)" "labs ! i ! n \<in> fst ` set i2l"
      "i < length preds" "n < length (preds ! i)" "preds ! i ! n \<in> fst ` set i2l"
      by force+
    from here(3) obtain a0 where a0: "map_of i2l (labs ! i ! n) = Some a0"
      by (metis map_of_eq_None_iff not_Some_eq)
    from here(6) obtain b0 where b0: "map_of i2l (preds ! i ! n) = Some b0"
      by (metis map_of_eq_None_iff not_Some_eq)
    have later: "\<forall>j<length (takeWhile (\<lambda>m. m \<noteq> 0) ms).
             i < length labs \<and> Suc n + j < length (labs ! i) \<and> labs ! i ! (Suc n + j) \<in> fst ` set i2l \<and>
             i < length preds \<and> Suc n + j < length (preds ! i) \<and> preds ! i ! (Suc n + j) \<in> fst ` set i2l"
    proof (intro allI impI)
      fix j assume "j < length (takeWhile (\<lambda>m. m \<noteq> 0) ms)"
      then have "Suc j < length (takeWhile (\<lambda>m. m \<noteq> 0) (m # ms))" using False by simp
      with Cons.prems have "i < length labs \<and> n + Suc j < length (labs ! i) \<and>
          labs ! i ! (n + Suc j) \<in> fst ` set i2l \<and>
          i < length preds \<and> n + Suc j < length (preds ! i) \<and> preds ! i ! (n + Suc j) \<in> fst ` set i2l"
        by blast
      then show "i < length labs \<and> Suc n + j < length (labs ! i) \<and> labs ! i ! (Suc n + j) \<in> fst ` set i2l \<and>
             i < length preds \<and> Suc n + j < length (preds ! i) \<and> preds ! i ! (Suc n + j) \<in> fst ` set i2l"
        by simp
    qed
    from Cons.IH [OF later] show ?thesis using False here a0 b0 by simp
  qed
qed

lemma row_loop_returns:
  assumes "\<forall>k<length masks. \<forall>j<length (takeWhile (\<lambda>m. m \<noteq> 0) (masks ! k)).
             n + k < length labs \<and> j < length (labs ! (n + k)) \<and> labs ! (n + k) ! j \<in> fst ` set i2l \<and>
             n + k < length preds \<and> j < length (preds ! (n + k)) \<and> preds ! (n + k) ! j \<in> fst ` set i2l"
  shows "\<exists>a b. row_loop i2l labs preds (enumerate n masks) (y_true, y_pred) = Inr (a, b)"
  using assms
proof (induction masks arbitrary: n y_true y_pred)
  case Nil
  then show ?case by simp
next
  case (Cons mask_row masks)
  have "\<forall>j<length (takeWhile (\<lambda>m. m \<noteq> 0) mask_row).
             n < length labs \<and> 0 + j < length (labs ! n) \<and> labs ! n ! (0 + j) \<in> fst ` set i2l \<and>
             n < length preds \<and> 0 + j < length (preds ! n) \<and> preds ! n ! (0 + j) \<in> fst ` set i2l"
    using Cons.prems by force
  from compare_loop_returns [OF this, of "[]" "[]"]
  obtain temp_1 temp_2 where
    row: "compare_loop i2l labs preds n (enumerate 0 mask_row) ([], []) = Inr (temp_1, temp_2)"
    by blast
  have later: "\<forall>k<length masks. \<forall>j<length (takeWhile (\<lambda>m. m \<noteq> 0) (masks ! k)).
             Suc n + k < length labs \<and> j < length (labs ! (Suc n + k)) \<and>
             labs ! (Suc n + k) ! j \<in> fst ` set i2l \<and>
             Suc n + k < length preds \<and> j < length (preds ! (Suc n + k)) \<and>
             preds ! (Suc n + k) ! j \<in> fst ` set i2l"
  proof (intro allI impI)
    fix k j assume k: "k < length masks" and j: "j < length (takeWhile (\<lambda>m. m \<noteq> 0) (masks ! k))"
    then have "Suc k < length (mask_row # masks)"
      "j < length (takeWhile (\<lambda>m. m \<noteq> 0) ((mask_row # masks) ! Suc k))"
      by simp_all
    with Cons.prems have "n + Suc k < length labs \<and> j < length (labs ! (n + Suc k)) \<and>
        labs ! (n + Suc k) ! j \<in> fst ` set i2l \<and>
        n + Suc k < length preds \<and> j < length (preds ! (n + Suc k)) \<and>
        preds ! (n + Suc k) ! j \<in> fst ` set i2l"
      by blast
    then show "Suc n + k < length labs \<and> j < length (labs ! (Suc n + k)) \<and>
             labs ! (Suc n + k) ! j \<in> fst ` set i2l \<and>
             Suc n + k < length preds \<and> j < length (preds ! (Suc n + k)) \<and>
             preds ! (Suc n + k) ! j \<in> fst ` set i2l"
      by simp
  qed
  from Cons.IH [OF later] show ?case using row by simp
qed

lemma batch_loop_returns:
  assumes "\<forall>b \<in> set batches. readable i2l b"
  shows "\<exists>a b. batch_loop i2l batches (y_true, y_pred) = Inr (a, b)"
  using assms
proof (induction batches arbitrary: y_true y_pred)
  case Nil
  then show ?case by simp
next
  case (Cons b batches)
  have "readable i2l b" using Cons.prems by simp
  then have "\<forall>k<length (input_mask b). \<forall>j<length (takeWhile (\<lambda>m. m \<noteq> 0) (input_mask b ! k)).
      0 + k < length (label_ids b) \<and> j < length (label_ids b ! (0 + k)) \<and>
      label_ids b ! (0 + k) ! j \<in> fst ` set i2l \<and>
      0 + k < length (logits b) \<and> j < length (logits b ! (0 + k)) \<and>
      logits b ! (0 + k) ! j \<in> fst ` set i2l"
    by (simp add: readable_def)
  from row_loop_returns [OF this] obtain yt yp where
    "row_loop i2l (label_ids b) (logits b) (enumerate 0 (input_mask b)) (y_true, y_pred) = Inr (yt, yp)"
    by blast
  moreover from Cons.IH [of yt yp] Cons.prems obtain a c where
    "batch_loop i2l batches (yt, yp) = Inr (a, c)" by auto
  ultimately show ?case by simp
qed

lemma compared_before_zero:
  assumes "j \<in> set (compared i2l mask_row label_row)"
  shows "j < length mask_row \<and> (\<forall>j'\<le>j. mask_row ! j' \<noteq> 0)"
proof -
  let ?tw = "takeWhile (\<lambda>m. m \<noteq> 0) mask_row"
  from assms have j: "j < length ?tw" by (simp add: compared_def)
  have le: "length ?tw \<le> length mask_row" by (rule length_takeWhile_le)
  have "mask_row ! j' \<noteq> 0" if "j' \<le> j" for j'
  proof -
    have lt: "j' < length ?tw" using that j by simp
    then have "?tw ! j' = mask_row ! j'" by (rule takeWhile_nth)
    moreover have "?tw ! j' \<in> set ?tw" using lt by (rule nth_mem)
    ultimately show ?thesis by (auto dest: set_takeWhileD)
  qed
  then show ?thesis using j le by auto
qed

text \<open>
  Claim C8. When the evaluation loop runs to its end, \<open>y_true\<close> and \<open>y_pred\<close> have one sequence
  for each validation example. The ground-truth sequence of an example holds no \<open>'X'\<close> and no
  \<open>'[PAD]'\<close>, its prediction sequence has the same length, and both are read at the same
  positions: those before the first zero of the attention mask whose true label is neither
  \<open>'X'\<close> nor \<open>'[PAD]'\<close>; the mask is not zero at such a position nor at any position before
  it. The loop does run to its end when every position before the first zero of a mask has
  a label id and a predicted id that are keys of \<open>id2label\<close>. The pair of sequences that
  the inner loop builds for one example, which is what the loop appends, has these
  properties also when a later example makes the loop raise.
\<close>

theorem evaluation_sequences:
  "(\<forall>y_true y_pred. evaluation i2l batches = Inr (y_true, y_pred) \<longrightarrow>
      length y_true = length (examples batches) \<and> length y_pred = length (examples batches) \<and>
      (\<forall>k<length (examples batches).
         ''X'' \<notin> set (y_true ! k) \<and> ''[PAD]'' \<notin> set (y_true ! k) \<and>
         length (y_pred ! k) = length (y_true ! k) \<and>
         (case examples batches ! k of (mask_row, label_row, pred_row) \<Rightarrow>
            y_true ! k = map (\<lambda>j. the (map_of i2l (label_row ! j))) (compared i2l mask_row label_row) \<and>
            y_pred ! k = map (\<lambda>j. the (map_of i2l (pred_row ! j))) (compared i2l mask_row label_row) \<and>
            (\<forall>j \<in> set (compared i2l mask_row label_row).
               j < length mask_row \<and> (\<forall>j'\<le>j. mask_row ! j' \<noteq> 0))))) \<and>
   ((\<forall>b \<in> set batches. readable i2l b) \<longrightarrow>
      (\<exists>y_true y_pred. evaluation i2l batches = Inr (y_true, y_pred))) \<and>
   (\<forall>labs preds i mask_row temp_1 temp_2.
      compare_loop i2l labs preds i (enumerate 0 mask_row) ([], []) = Inr (temp_1, temp_2) \<longrightarrow>
        ''X'' \<notin> set temp_1 \<and> ''[PAD]'' \<notin> set temp_1 \<and> length temp_2 = length temp_1 \<and>
        temp_1 = map (\<lambda>j. the (map_of i2l (labs ! i ! j))) (compared i2l mask_row (labs ! i)) \<and>
        temp_2 = map (\<lambda>j. the (map_of i2l (preds ! i ! j))) (compared i2l mask_row (labs ! i)))"
proof (intro conjI allI impI)
  fix y_true y_pred
  assume run: "evaluation i2l batches = Inr (y_true, y_pred)"
  from batch_loop_result [OF run [unfolded evaluation_def]]
  have len: "length y_true = length (examples batches)" "length y_pred = length (examples batches)"
    and rows: "\<forall>k<length (examples batches). row_result i2l (examples batches ! k) (y_true ! k) (y_pred ! k)"
    by auto
  show "length y_true = length (examples batches)" by (rule len(1))
  show "length y_pred = length (examples batches)" by (rule len(2))
  fix k assume k: "k < length (examples batches)"
  obtain mask_row label_row pred_row where ex: "examples batches ! k = (mask_row, label_row, pred_row)"
    by (cases "examples batches ! k")
  from rows k ex have r:
    "y_true ! k = map (\<lambda>j. the (map_of i2l (label_row ! j))) (compared i2l mask_row label_row)"
    "y_pred ! k = map (\<lambda>j. the (map_of i2l (pred_row ! j))) (compared i2l mask_row label_row)"
    "''X'' \<notin> set (y_true ! k)" "''[PAD]'' \<notin> set (y_true ! k)"
    by (auto simp: row_result_def)
  show "''X'' \<notin> set (y_true ! k)" by (rule r(3))
  show "''[PAD]'' \<notin> set (y_true ! k)" by (rule r(4))
  show "length (y_pred ! k) = length (y_true ! k)" by (simp add: r(1,2))
  show "case examples batches ! k of (mask_row, label_row, pred_row) \<Rightarrow>
            y_true ! k = map (\<lambda>j. the (map_of i2l (label_row ! j))) (compared i2l mask_row label_row) \<and>
            y_pred ! k = map (\<lambda>j. the (map_of i2l (pred_row ! j))) (compared i2l mask_row label_row) \<and>
            (\<forall>j \<in> set (compared i2l mask_row label_row).
               j < length mask_row \<and> (\<forall>j'\<le>j. mask_row ! j' \<noteq> 0))"
    using r(1,2) compared_before_zero [of _ i2l mask_row label_row] by (simp add: ex)
next
  assume "\<forall>b \<in> set batches. readable i2l b"
  from batch_loop_returns [OF this, of "[]" "[]"]
  show "\<exists>y_true y_pred. evaluation i2l batches = Inr (y_true, y_pred)"
    by (simp add: evaluation_def)
next
  fix labs preds i mask_row temp_1 temp_2
  assume "compare_loop i2l labs preds i (enumerate 0 mask_row) ([], []) = Inr (temp_1, temp_2)"
  from compare_loop_row_result [OF this]
  have "row_result i2l (mask_row, labs ! i, preds ! i) temp_1 temp_2" .
  then have r: "temp_1 = map (\<lambda>j. the (map_of i2l (labs ! i ! j))) (compared i2l mask_row (labs ! i))"
    "temp_2 = map (\<lambda>j. the (map_of i2l (preds ! i ! j))) (compared i2l mask_row (labs ! i))"
    "''X'' \<notin> set temp_1" "''[PAD]'' \<notin> set temp_1"
    by (auto simp: row_result_def)
  show "''X'' \<notin> set temp_1" by (rule r(3))
  show "''[PAD]'' \<notin> set temp_1" by (rule r(4))
  show "length temp_2 = length temp_1" by (simp add: r(1,2))
  show "temp_1 = map (\<lambda>j. the (map_of i2l (labs ! i ! j))) (compared i2l mask_row (labs ! i))"
    by (rule r(1))
  show "temp_2 = map (\<lambda>j. the (map_of i2l (preds ! i ! j))) (compared i2l mask_row (labs ! i))"
    by (rule r(2))
qed

theorem evaluation_sequences_witness:
  "readable (id2label (label2id [''O'', ''B-x''])) example_batch \<and>
   evaluation (id2label (label2id [''O'', ''B-x''])) [example_batch] =
     Inr ([[''O'', ''B-x'']], [[''B-x'', ''O'']]) \<and>
   length [[''O'', ''B-x'']] = length (examples [example_batch]) \<and>
   ''X'' \<notin> set ([[''O'', ''B-x'']] ! 0) \<and>
   length ([[''B-x'', ''O'']] ! 0) = length ([[''O'', ''B-x'']] ! 0)"
proof -
  let ?d = "id2label (label2id [''O'', ''B-x''])"
  have run: "evaluation ?d [example_batch] = Inr ([[''O'', ''B-x'']], [[''B-x'', ''O'']])"
    by code_simp
  have rd: "readable ?d example_batch" by code_simp
  have k: "0 < length (examples [example_batch])" by code_simp
  from evaluation_sequences [of ?d "[example_batch]"] run k
  have "length [[''O'', ''B-x'']] = length (examples [example_batch]) \<and>
   ''X'' \<notin> set ([[''O'', ''B-x'']] ! 0) \<and>
   length ([[''B-x'', ''O'']] ! 0) = length ([[''O'', ''B-x'']] ! 0)"
    by blast
  with run rd show ?thesis by blast
qed

end
